theory Spec2Isabelle
  imports Complex_Main "HOL-Library.Log_Nat" "HOL-Library.Sublist"
begin

section \<open>Python values\<close>

text \<open>
  The module \<^verbatim>\<open>tools/parsers/lib/data.py\<close> works on scalars of the union
  \<^verbatim>\<open>Union[float, str, int]\<close>. A value is tagged with its runtime type, since the code
  branches on \<^verbatim>\<open>isinstance\<close>. A \<^verbatim>\<open>str\<close> is kept as the bytes of its UTF-8 encoding,
  an \<^verbatim>\<open>int\<close> is unbounded, and a \<^verbatim>\<open>float\<close> is an IEEE 754 binary64 number: a rational
  (the finite numbers, \<open>Fin 0\<close> being \<open>+0.0\<close>), the negative zero, an infinity or
  not-a-number.
\<close>

datatype py_error = ValueError | OverflowError | EOFError

datatype pyfloat = Fin rat | NegZero | PInf | NInf | NaN

datatype pynum = PInt int | PFloat pyfloat

datatype pyval = PStr string | PNum pynum

subsection \<open>Rounding to binary64\<close>

text \<open>
  Every float operation returns the exact result rounded to the nearest binary64 number,
  ties to the even significand. \<open>ilog2 q\<close> is the binary exponent of a positive rational,
  \<open>round_mag q\<close> the nearest multiple of the spacing at \<open>q\<close> (53 significant bits, and
  never finer than \<open>2^-1074\<close>, the spacing of the subnormal numbers); a result of
  magnitude \<open>2^1024\<close> or more overflows to an infinity, and a nonzero result that rounds
  to zero keeps its sign.
\<close>

definition ilog2 :: "rat \<Rightarrow> int" where
  "ilog2 q = (if 1 \<le> q then bitlen \<lfloor>q\<rfloor> - 1 else - bitlen (\<lceil>1 / q\<rceil> - 1))"

definition round_half_even :: "rat \<Rightarrow> int" where
  "round_half_even x =
     (let n = \<lfloor>x\<rfloor>; d = x - of_int n
      in if d < 1 / 2 then n else if 1 / 2 < d then n + 1 else if even n then n else n + 1)"

definition round_mag :: "rat \<Rightarrow> rat" where
  "round_mag q =
     (let e = max (ilog2 q - 52) (- 1074)
      in of_int (round_half_even (q / 2 powi e)) * 2 powi e)"

definition fl :: "rat \<Rightarrow> pyfloat" where
  "fl q =
     (if q = 0 then Fin 0
      else let r = round_mag \<bar>q\<bar>
           in if 2 ^ 1024 \<le> r then (if q < 0 then NInf else PInf)
              else if r = 0 then (if q < 0 then NegZero else Fin 0)
              else Fin (if q < 0 then - r else r))"

text \<open>A float of the model is a binary64 number when rounding leaves it as it is.\<close>

fun is_double :: "pyfloat \<Rightarrow> bool" where
  "is_double (Fin q) = (fl q = Fin q)"
| "is_double _ = True"

subsection \<open>Float arithmetic and comparison\<close>

fun sign_bit :: "pyfloat \<Rightarrow> bool" where
  "sign_bit (Fin q) = (q < 0)"
| "sign_bit NegZero = True"
| "sign_bit PInf = False"
| "sign_bit NInf = True"
| "sign_bit NaN = False"

fun is_zero :: "pyfloat \<Rightarrow> bool" where
  "is_zero (Fin q) = (q = 0)"
| "is_zero NegZero = True"
| "is_zero _ = False"

fun is_nan :: "pyfloat \<Rightarrow> bool" where
  "is_nan NaN = True"
| "is_nan _ = False"

fun fabs :: "pyfloat \<Rightarrow> pyfloat" where
  "fabs (Fin q) = Fin \<bar>q\<bar>"
| "fabs NegZero = Fin 0"
| "fabs PInf = PInf"
| "fabs NInf = PInf"
| "fabs NaN = NaN"

text \<open>
  \<open>x - y\<close> rounds the exact difference; an exact zero difference is \<open>+0.0\<close>, except
  \<open>-0.0 - (+0.0)\<close>.
\<close>

fun fsub :: "pyfloat \<Rightarrow> pyfloat \<Rightarrow> pyfloat" where
  "fsub NaN _ = NaN"
| "fsub _ NaN = NaN"
| "fsub PInf PInf = NaN"
| "fsub NInf NInf = NaN"
| "fsub PInf _ = PInf"
| "fsub NInf _ = NInf"
| "fsub _ PInf = NInf"
| "fsub _ NInf = PInf"
| "fsub NegZero NegZero = Fin 0"
| "fsub NegZero (Fin q) = (if q = 0 then NegZero else fl (- q))"
| "fsub (Fin p) NegZero = fl p"
| "fsub (Fin p) (Fin q) = fl (p - q)"

text \<open>\<open>x * y\<close>: the sign is the exclusive or of the signs, also for a zero product.\<close>

fun fmul :: "pyfloat \<Rightarrow> pyfloat \<Rightarrow> pyfloat" where
  "fmul NaN _ = NaN"
| "fmul _ NaN = NaN"
| "fmul (Fin p) (Fin q) =
     (if p * q = 0 then (if sign_bit (Fin p) \<noteq> sign_bit (Fin q) then NegZero else Fin 0)
      else fl (p * q))"
| "fmul x y =
     (if is_zero x \<or> is_zero y
      then (if x = PInf \<or> x = NInf \<or> y = PInf \<or> y = NInf then NaN
            else if sign_bit x \<noteq> sign_bit y then NegZero else Fin 0)
      else if sign_bit x \<noteq> sign_bit y then NInf else PInf)"

text \<open>
  Comparison is by exact value; both zeros are equal, and every comparison with
  not-a-number is false.
\<close>

fun fle :: "pyfloat \<Rightarrow> pyfloat \<Rightarrow> bool" where
  "fle NaN _ = False"
| "fle _ NaN = False"
| "fle NInf _ = True"
| "fle _ PInf = True"
| "fle PInf _ = False"
| "fle _ NInf = False"
| "fle NegZero NegZero = True"
| "fle NegZero (Fin q) = (0 \<le> q)"
| "fle (Fin p) NegZero = (p \<le> 0)"
| "fle (Fin p) (Fin q) = (p \<le> q)"

definition fgt :: "pyfloat \<Rightarrow> pyfloat \<Rightarrow> bool" where
  "fgt x y = (\<not> is_nan x \<and> \<not> is_nan y \<and> \<not> fle x y)"

subsection \<open>Numbers: \<^verbatim>\<open>int\<close> and \<^verbatim>\<open>float\<close> together\<close>

text \<open>
  An \<^verbatim>\<open>int\<close> that meets a \<^verbatim>\<open>float\<close> in arithmetic, or is passed to \<^verbatim>\<open>math.isnan\<close>, is
  converted to the nearest float; the conversion raises \<^verbatim>\<open>OverflowError\<close> when that
  would be an infinity. Comparisons between the two types are exact.
\<close>

definition float_of_int :: "int \<Rightarrow> py_error + pyfloat" where
  "float_of_int n =
     (case fl (of_int n) of PInf \<Rightarrow> Inl OverflowError | NInf \<Rightarrow> Inl OverflowError | x \<Rightarrow> Inr x)"

fun as_float :: "pynum \<Rightarrow> py_error + pyfloat" where
  "as_float (PInt n) = float_of_int n"
| "as_float (PFloat x) = Inr x"

fun exact :: "pynum \<Rightarrow> pyfloat" where
  "exact (PInt n) = Fin (of_int n)"
| "exact (PFloat x) = x"

definition num_le :: "pynum \<Rightarrow> pynum \<Rightarrow> bool" where
  "num_le a b = fle (exact a) (exact b)"

definition num_gt :: "pynum \<Rightarrow> pynum \<Rightarrow> bool" where
  "num_gt a b = fgt (exact a) (exact b)"

fun num_sub :: "pynum \<Rightarrow> pynum \<Rightarrow> py_error + pynum" where
  "num_sub (PInt m) (PInt n) = Inr (PInt (m - n))"
| "num_sub a b =
     (case as_float a of Inl e \<Rightarrow> Inl e
      | Inr x \<Rightarrow> (case as_float b of Inl e \<Rightarrow> Inl e | Inr y \<Rightarrow> Inr (PFloat (fsub x y))))"

fun num_abs :: "pynum \<Rightarrow> pynum" where
  "num_abs (PInt n) = PInt \<bar>n\<bar>"
| "num_abs (PFloat x) = PFloat (fabs x)"

text \<open>\<^verbatim>\<open>max(a, b)\<close> keeps its first argument unless the second is greater.\<close>

definition py_max :: "pynum \<Rightarrow> pynum \<Rightarrow> pynum" where
  "py_max a b = (if num_gt b a then b else a)"

definition float_times :: "pyfloat \<Rightarrow> pynum \<Rightarrow> py_error + pyfloat" where
  "float_times c m = (case as_float m of Inl e \<Rightarrow> Inl e | Inr x \<Rightarrow> Inr (fmul c x))"

subsection \<open>Strings\<close>

text \<open>
  \<^verbatim>\<open>str.strip\<close> and the pattern \<^verbatim>\<open>\s\<close> of \<^verbatim>\<open>re\<close> take for whitespace the characters of
  \<^verbatim>\<open>str.isspace\<close>; \<open>whitespace\<close> lists their UTF-8 encodings. \<open>chars\<close> cuts a string into
  its whitespace characters and its other bytes.
\<close>

definition whitespace :: "string list" where
  "whitespace =
     map (\<lambda>n. [char_of (n::nat)]) [9, 10, 11, 12, 13, 28, 29, 30, 31, 32] @
     [[CHR 0xC2, CHR 0x85], [CHR 0xC2, CHR 0xA0], [CHR 0xE1, CHR 0x9A, CHR 0x80]] @
     map (\<lambda>n. [CHR 0xE2, CHR 0x80, char_of (n::nat)]) [128 ..< 139] @
     [[CHR 0xE2, CHR 0x80, CHR 0xA8], [CHR 0xE2, CHR 0x80, CHR 0xA9], [CHR 0xE2, CHR 0x80, CHR 0xAF],
      [CHR 0xE2, CHR 0x81, CHR 0x9F], [CHR 0xE3, CHR 0x80, CHR 0x80]]"

definition ws_len :: "string \<Rightarrow> nat" where
  "ws_len s = (case find (\<lambda>w. prefix w s) whitespace of None \<Rightarrow> 0 | Some w \<Rightarrow> length w)"

fun chars :: "string \<Rightarrow> string list" where
  "chars [] = []"
| "chars (c # s) =
     (if ws_len (c # s) = 0 then [c] # chars s
      else take (ws_len (c # s)) (c # s) # chars (drop (ws_len (c # s) - 1) s))"

definition is_space :: "string \<Rightarrow> bool" where
  "is_space t = (t \<in> set whitespace)"

definition strip :: "string \<Rightarrow> string" where
  "strip s = concat (rev (dropWhile is_space (rev (dropWhile is_space (chars s)))))"

text \<open>\<^verbatim>\<open>re.sub(r'\s\s+', ' ', s)\<close>: every run of two or more whitespace characters becomes one space.\<close>

function collapse :: "string list \<Rightarrow> string list" where
  "collapse [] = []"
| "collapse [t] = [t]"
| "collapse (t # u # ts) =
     (if is_space t \<and> is_space u then '' '' # collapse (dropWhile is_space ts)
      else t # collapse (u # ts))"
  by pat_completeness auto
termination
  by (relation "measure length") (auto simp: less_Suc_eq_le le_SucI length_dropWhile_le)

definition sub_spaces :: "string \<Rightarrow> string" where
  "sub_spaces s = concat (collapse (chars s))"

text \<open>\<^verbatim>\<open>s.replace(old, new)\<close>, leftmost occurrences first.\<close>

fun replace_from :: "string \<Rightarrow> string \<Rightarrow> string \<Rightarrow> string" where
  "replace_from old new [] = []"
| "replace_from old new (c # s) =
     (if prefix old (c # s) then new @ replace_from old new (drop (length old - 1) s)
      else c # replace_from old new s)"

definition replace :: "string \<Rightarrow> string \<Rightarrow> string \<Rightarrow> string" where
  "replace old new s =
     (if old = [] then new @ concat (map (\<lambda>c. c # new) s) else replace_from old new s)"

text \<open>The right double quotation mark U+201D.\<close>

definition right_quote :: string where
  "right_quote = [CHR 0xE2, CHR 0x80, CHR 0x9D]"

section \<open>The value comparator\<close>

text \<open>
  \<^verbatim>\<open>is_empty(x)\<close>,
  \<^verbatim>\<open>isinstance(x,str) and x=='' or not isinstance(x,str) and (math.isnan(x) or x==0)\<close>:
  \<^verbatim>\<open>math.isnan\<close> converts an \<^verbatim>\<open>int\<close> to a float first.
\<close>

fun is_empty :: "pyval \<Rightarrow> py_error + bool" where
  "is_empty (PStr s) = Inr (s = [])"
| "is_empty (PNum (PInt n)) =
     (case float_of_int n of Inl e \<Rightarrow> Inl e | Inr x \<Rightarrow> Inr (is_nan x \<or> n = 0))"
| "is_empty (PNum (PFloat x)) = Inr (is_nan x \<or> is_zero x)"

text \<open>The numeric test of both comparators, \<^verbatim>\<open>abs(a-b) <= c * max(a,b)\<close> for a float \<open>c\<close>.\<close>

definition abs_diff_le :: "pyfloat \<Rightarrow> pynum \<Rightarrow> pynum \<Rightarrow> py_error + bool" where
  "abs_diff_le c a b =
     (case num_sub a b of Inl e \<Rightarrow> Inl e
      | Inr d \<Rightarrow>
          (case float_times c (py_max a b) of Inl e \<Rightarrow> Inl e
           | Inr t \<Rightarrow> Inr (num_le (num_abs d) (PFloat t))))"

text \<open>The literals \<^verbatim>\<open>2e-3\<close> and \<^verbatim>\<open>0.05\<close> are the floats nearest to the decimals.\<close>

definition float_2e_3 :: pyfloat where
  "float_2e_3 = fl (2 / 10 ^ 3)"

definition float_0_05 :: pyfloat where
  "float_0_05 = fl (5 / 10 ^ 2)"

fun are_equal :: "pyval \<Rightarrow> pyval \<Rightarrow> py_error + bool" where
  "are_equal (PStr a) (PStr b) = Inr (strip a = strip b)"
| "are_equal (PNum a) (PNum b) = abs_diff_le float_2e_3 a b"
| "are_equal _ _ = Inr False"

text \<open>
  \<^verbatim>\<open>str.lower\<close> follows the Unicode case tables; they are not part of the module, and
  \<open>are_close_enough\<close> takes the function as its first argument.
\<close>

fun are_close_enough :: "(string \<Rightarrow> string) \<Rightarrow> pyval \<Rightarrow> pyval \<Rightarrow> py_error + bool" where
  "are_close_enough lower (PStr a) (PStr b) =
     (let aval = lower (strip (sub_spaces (replace right_quote ''in'' a)));
          bval = lower (strip (sub_spaces (replace right_quote ''in'' b)))
      in Inr (aval = bval))"
| "are_close_enough lower (PNum a) (PNum b) = abs_diff_le float_0_05 a b"
| "are_close_enough lower _ _ = Inr False"

section \<open>Records\<close>

text \<open>
  \<^verbatim>\<open>DeviceCarbonFootprintData\<close> is a \<^verbatim>\<open>TypedDict\<close> with \<^verbatim>\<open>total=False\<close>: a dictionary that may
  hold any of the fields below. \<open>annotations\<close> is its \<^verbatim>\<open>__annotations__\<close>, in the order of
  the class body.
\<close>

datatype pytype = TStr | TFloat | TInt

definition annotations :: "(string \<times> pytype) list" where
  "annotations =
     [(''manufacturer'', TStr), (''name'', TStr), (''category'', TStr), (''subcategory'', TStr),
      (''gwp_total'', TFloat), (''gwp_use_ratio'', TFloat), (''yearly_tec'', TFloat),
      (''lifetime'', TFloat), (''use_location'', TStr), (''report_date'', TStr),
      (''sources'', TStr), (''sources_hash'', TStr), (''gwp_error_ratio'', TFloat),
      (''gwp_manufacturing_ratio'', TFloat), (''weight'', TFloat), (''assembly_location'', TStr),
      (''screen_size'', TFloat), (''server_type'', TStr), (''hard_drive'', TStr),
      (''memory'', TFloat), (''number_cpu'', TInt), (''height'', TInt), (''added_date'', TStr),
      (''add_method'', TStr), (''gwp_transport_ratio'', TFloat), (''gwp_eol_ratio'', TFloat),
      (''gwp_electronics_ratio'', TFloat), (''gwp_battery_ratio'', TFloat),
      (''gwp_hdd_ratio'', TFloat), (''gwp_ssd_ratio'', TFloat),
      (''gwp_othercomponents_ratio'', TFloat), (''comment'', TStr)]"

definition schema_keys :: "string list" where
  "schema_keys = map fst annotations"

datatype DeviceCarbonFootprint = DeviceCarbonFootprint (data: "string \<rightharpoonup> pyval")

definition get :: "DeviceCarbonFootprint \<Rightarrow> string \<Rightarrow> py_error + pyval" where
  "get self key =
     (case data self key of
        Some v \<Rightarrow> Inr v
      | None \<Rightarrow> if key \<notin> set schema_keys then Inl ValueError else Inr (PStr ''''))"

section \<open>The merger\<close>

text \<open>
  The state of \<^verbatim>\<open>merge\<close>: the dictionary \<^verbatim>\<open>result\<close>, the two sets of \<^verbatim>\<open>report\<close> and the list
  \<^verbatim>\<open>conflicts\<close>. What \<^verbatim>\<open>merge\<close> prints (the warnings under \<^verbatim>\<open>verbose\<close>, the table of
  conflicts) does not reach what it returns and is left out; \<^verbatim>\<open>input()\<close> reads the line
  \<open>stdin\<close>, and raises \<^verbatim>\<open>EOFError\<close> when there is none.
\<close>

record merge_state =
  result :: "string \<rightharpoonup> pyval"
  report0 :: "string set"
  report1 :: "string set"
  conflicts :: "string list"

datatype conflict_policy = Keep2nd | Interactive

definition ignore_keys :: "string list" where
  "ignore_keys = [''added_date'', ''add_method'', ''comment'']"

definition keep1 :: "merge_state \<Rightarrow> string \<Rightarrow> pyval \<Rightarrow> merge_state" where
  "keep1 st key v = st\<lparr>result := (result st)(key \<mapsto> v), report0 := insert key (report0 st)\<rparr>"

definition keep2 :: "merge_state \<Rightarrow> string \<Rightarrow> pyval \<Rightarrow> merge_state" where
  "keep2 st key v = st\<lparr>result := (result st)(key \<mapsto> v), report1 := insert key (report1 st)\<rparr>"

text \<open>The body of the loop over the fields, for one \<open>key\<close>.\<close>

definition merge_key ::
  "(string \<Rightarrow> string) \<Rightarrow> DeviceCarbonFootprint \<Rightarrow> DeviceCarbonFootprint \<Rightarrow>
   merge_state \<Rightarrow> string \<Rightarrow> py_error + merge_state" where
  "merge_key lower device1 device2 st key =
     (case get device1 key of Inl e \<Rightarrow> Inl e | Inr v1 \<Rightarrow>
      case get device2 key of Inl e \<Rightarrow> Inl e | Inr v2 \<Rightarrow>
      case is_empty v1 of Inl e \<Rightarrow> Inl e | Inr e1 \<Rightarrow>
      case is_empty v2 of Inl e \<Rightarrow> Inl e | Inr e2 \<Rightarrow>
      if \<not> e1 \<and> e2 then Inr (keep1 st key v1)
      else if e1 \<and> \<not> e2 then Inr (keep2 st key v2)
      else if e1 \<and> e2 then Inr (keep2 st key v2)
      else
        case are_equal v1 v2 of Inl e \<Rightarrow> Inl e | Inr eq \<Rightarrow>
        if eq then Inr (keep2 st key v2)
        else
          case are_close_enough lower v1 v2 of Inl e \<Rightarrow> Inl e | Inr close \<Rightarrow>
          if close then Inr (keep2 st key v2)
          else if key \<in> set ignore_keys then Inr (keep2 st key v2)
          else if key = ''sources'' then Inr (keep2 st key v2)
          else Inr (st\<lparr>conflicts := conflicts st @ [key]\<rparr>))"

fun merge_loop ::
  "(string \<Rightarrow> string) \<Rightarrow> DeviceCarbonFootprint \<Rightarrow> DeviceCarbonFootprint \<Rightarrow>
   string list \<Rightarrow> merge_state \<Rightarrow> py_error + merge_state" where
  "merge_loop lower device1 device2 [] st = Inr st"
| "merge_loop lower device1 device2 (key # keys) st =
     (case merge_key lower device1 device2 st key of
        Inl e \<Rightarrow> Inl e
      | Inr st' \<Rightarrow> merge_loop lower device1 device2 keys st')"

text \<open>The two loops over \<^verbatim>\<open>conflicts\<close> after the prompt.\<close>

fun keep_first :: "DeviceCarbonFootprint \<Rightarrow> string list \<Rightarrow> merge_state \<Rightarrow> py_error + merge_state" where
  "keep_first device1 [] st = Inr st"
| "keep_first device1 (key # keys) st =
     (case get device1 key of Inl e \<Rightarrow> Inl e | Inr v \<Rightarrow> keep_first device1 keys (keep1 st key v))"

fun keep_second :: "DeviceCarbonFootprint \<Rightarrow> string list \<Rightarrow> merge_state \<Rightarrow> py_error + merge_state" where
  "keep_second device2 [] st = Inr st"
| "keep_second device2 (key # keys) st =
     (case get device2 key of Inl e \<Rightarrow> Inl e | Inr v \<Rightarrow> keep_second device2 keys (keep2 st key v))"

definition py_input :: "string option \<Rightarrow> py_error + string" where
  "py_input stdin = (case stdin of None \<Rightarrow> Inl EOFError | Some line \<Rightarrow> Inr line)"

definition returned ::
  "merge_state \<Rightarrow> DeviceCarbonFootprint \<times> (string set \<times> string set) \<times> string list" where
  "returned st = (DeviceCarbonFootprint (result st), (report0 st, report1 st), conflicts st)"

definition merge ::
  "(string \<Rightarrow> string) \<Rightarrow> DeviceCarbonFootprint \<Rightarrow> DeviceCarbonFootprint \<Rightarrow>
   conflict_policy \<Rightarrow> int \<Rightarrow> string option \<Rightarrow>
   py_error + DeviceCarbonFootprint \<times> (string set \<times> string set) \<times> string list" where
  "merge lower device1 device2 conflict verbose stdin =
     (case merge_loop lower device1 device2 schema_keys
             \<lparr>result = Map.empty, report0 = {}, report1 = {}, conflicts = []\<rparr> of
        Inl e \<Rightarrow> Inl e
      | Inr st \<Rightarrow>
          if length (conflicts st) > 0 then
            (case (if conflict = Interactive then py_input stdin else Inr ''n'') of
               Inl e \<Rightarrow> Inl e
             | Inr k \<Rightarrow>
                 (case (if k = ''o'' then keep_first device1 (conflicts st) st
                        else keep_second device2 (conflicts st) st) of
                    Inl e \<Rightarrow> Inl e
                  | Inr st' \<Rightarrow> Inr (returned st')))
          else Inr (returned st))"

section \<open>The row formatter\<close>

text \<open>
  \<^verbatim>\<open>str\<close> of an \<^verbatim>\<open>int\<close> is its decimal numeral. The interpreter refuses the conversion, with
  a \<^verbatim>\<open>ValueError\<close>, when the integer has more decimal digits (the sign not counted) than
  \<^verbatim>\<open>sys.get_int_max_str_digits()\<close>, which is 4300 unless it is reconfigured; the program does
  not reconfigure it. \<^verbatim>\<open>str\<close> of a \<^verbatim>\<open>float\<close> is the shortest decimal that reads back as the
  same float, computed by the interpreter; the formatter takes it as the function
  \<open>float_repr\<close>. \<^verbatim>\<open>str\<close> of a string is the string.
\<close>

fun digits :: "nat \<Rightarrow> string" where
  "digits n =
     (if n < 10 then [''0123456789'' ! n] else digits (n div 10) @ [''0123456789'' ! (n mod 10)])"

declare digits.simps [simp del]

definition decimal :: "int \<Rightarrow> string" where
  "decimal n = (if n < 0 then CHR ''-'' # digits (nat (- n)) else digits (nat n))"

definition int_max_str_digits :: nat where
  "int_max_str_digits = 4300"

definition str_of_int :: "int \<Rightarrow> py_error + string" where
  "str_of_int n =
     (if int_max_str_digits < length (digits (nat \<bar>n\<bar>)) then Inl ValueError
      else Inr (decimal n))"

fun py_str :: "(pyfloat \<Rightarrow> string) \<Rightarrow> pyval \<Rightarrow> py_error + string" where
  "py_str float_repr (PStr s) = Inr s"
| "py_str float_repr (PNum (PInt n)) = str_of_int n"
| "py_str float_repr (PNum (PFloat x)) = Inr (float_repr x)"

fun is_float :: "pyval \<Rightarrow> bool" where
  "is_float (PNum (PFloat x)) = True"
| "is_float _ = False"

text \<open>
  \<^verbatim>\<open>csv.writer(output, delimiter=d).writerow(cells)\<close> with the defaults of the module: a
  field holding the delimiter, a double quote, a carriage return or a line feed is put
  in double quotes, with its own double quotes doubled; a row of one empty field is
  written as two double quotes; the line ends with carriage return and line feed.
\<close>

datatype csv_format = US | FR

definition needs_quotes :: "char \<Rightarrow> string \<Rightarrow> bool" where
  "needs_quotes d field =
     list_ex (\<lambda>c. c = d \<or> c = CHR 0x22 \<or> c = CHR 0x0D \<or> c = CHR 0x0A) field"

definition csv_field :: "char \<Rightarrow> string \<Rightarrow> string" where
  "csv_field d field =
     (if needs_quotes d field
      then [CHR 0x22] @ concat (map (\<lambda>c. if c = CHR 0x22 then [c, c] else [c]) field) @ [CHR 0x22]
      else field)"

fun join :: "char \<Rightarrow> string list \<Rightarrow> string" where
  "join d [] = []"
| "join d [x] = x"
| "join d (x # y # ys) = x @ d # join d (y # ys)"

definition writerow :: "char \<Rightarrow> string list \<Rightarrow> string" where
  "writerow d cells =
     (if cells = [[]] then [CHR 0x22, CHR 0x22] else join d (map (csv_field d) cells))
     @ [CHR 0x0D, CHR 0x0A]"

text \<open>
  The cells of the row are computed from left to right; the first \<^verbatim>\<open>str\<close> that raises ends
  the call, before anything is written.
\<close>

fun format_cells ::
  "(pyfloat \<Rightarrow> string) \<Rightarrow> csv_format \<Rightarrow> pyval list \<Rightarrow> py_error + string list" where
  "format_cells float_repr csv_format [] = Inr []"
| "format_cells float_repr csv_format (value # row) =
     (case (if csv_format = FR \<and> is_float value
            then (case py_str float_repr value of
                    Inl e \<Rightarrow> Inl e
                  | Inr s \<Rightarrow> Inr (replace ''.'' '','' s))
            else py_str float_repr value) of
        Inl e \<Rightarrow> Inl e
      | Inr cell \<Rightarrow>
          (case format_cells float_repr csv_format row of
             Inl e \<Rightarrow> Inl e
           | Inr cells \<Rightarrow> Inr (cell # cells)))"

definition format_csv_row ::
  "(pyfloat \<Rightarrow> string) \<Rightarrow> pyval list \<Rightarrow> csv_format \<Rightarrow> py_error + string" where
  "format_csv_row float_repr row csv_format =
     (case format_cells float_repr csv_format row of
        Inl e \<Rightarrow> Inl e
      | Inr cells \<Rightarrow> Inr (writerow (if csv_format = FR then CHR '';'' else CHR '','') cells))"

fun get_all :: "DeviceCarbonFootprint \<Rightarrow> string list \<Rightarrow> py_error + pyval list" where
  "get_all self [] = Inr []"
| "get_all self (key # keys) =
     (case get self key of Inl e \<Rightarrow> Inl e
      | Inr v \<Rightarrow> (case get_all self keys of Inl e \<Rightarrow> Inl e | Inr vs \<Rightarrow> Inr (v # vs)))"

definition as_csv_row ::
  "(pyfloat \<Rightarrow> string) \<Rightarrow> DeviceCarbonFootprint \<Rightarrow> csv_format \<Rightarrow> py_error + string" where
  "as_csv_row float_repr self csv_format =
     (case get_all self schema_keys of
        Inl e \<Rightarrow> Inl e
      | Inr row \<Rightarrow> format_csv_row float_repr row csv_format)"

section \<open>Statements of the specification\<close>

text \<open>
  The values the claims range over: a string, an integer or a float, the float being a
  binary64 number.
\<close>

fun py_value :: "pyval \<Rightarrow> bool" where
  "py_value (PStr s) = True"
| "py_value (PNum (PInt n)) = True"
| "py_value (PNum (PFloat x)) = is_double x"

text \<open>
  Strict equality of numbers in the words of the specification: the absolute difference
  is at most 0.2 percent of the larger magnitude.
\<close>

definition spec_are_equal :: "rat \<Rightarrow> rat \<Rightarrow> bool" where
  "spec_are_equal a b = (\<bar>a - b\<bar> \<le> 2 / 1000 * max \<bar>a\<bar> \<bar>b\<bar>)"

text \<open>The float written \<^verbatim>\<open>-1e-322\<close>, twenty times the smallest positive float, negated.\<close>

definition tiny :: pyfloat where
  "tiny = Fin (- 20 / 2 ^ 1074)"

text \<open>What the accessor returns for a field of the schema: the stored value, or the empty string.\<close>

definition value_at :: "DeviceCarbonFootprint \<Rightarrow> string \<Rightarrow> pyval" where
  "value_at d key = (case data d key of Some v \<Rightarrow> v | None \<Rightarrow> PStr '''')"

text \<open>
  The classification of a field of two records: the first record wins where only it has a
  value; a field is a conflict where both have a value, neither comparator accepts the
  pair, and the field is neither one of the ignored fields nor \<^verbatim>\<open>sources\<close>; the second
  record wins everywhere else.
\<close>

definition first_wins :: "DeviceCarbonFootprint \<Rightarrow> DeviceCarbonFootprint \<Rightarrow> string \<Rightarrow> bool" where
  "first_wins device1 device2 key =
     (is_empty (value_at device1 key) = Inr False \<and> is_empty (value_at device2 key) = Inr True)"

definition is_conflict ::
  "(string \<Rightarrow> string) \<Rightarrow> DeviceCarbonFootprint \<Rightarrow> DeviceCarbonFootprint \<Rightarrow> string \<Rightarrow> bool" where
  "is_conflict lower device1 device2 key =
     (is_empty (value_at device1 key) = Inr False \<and>
      is_empty (value_at device2 key) = Inr False \<and>
      are_equal (value_at device1 key) (value_at device2 key) = Inr False \<and>
      are_close_enough lower (value_at device1 key) (value_at device2 key) = Inr False \<and>
      key \<notin> set ignore_keys \<and> key \<noteq> ''sources'')"

text \<open>Records of the examples.\<close>

definition record_a :: DeviceCarbonFootprint where
  "record_a = DeviceCarbonFootprint [''name'' \<mapsto> PStr ''X'', ''category'' \<mapsto> PStr ''Laptop'']"

definition record_b :: DeviceCarbonFootprint where
  "record_b =
     DeviceCarbonFootprint [''manufacturer'' \<mapsto> PStr ''Y'', ''category'' \<mapsto> PStr ''Desktop'']"

definition negative_height :: DeviceCarbonFootprint where
  "negative_height = DeviceCarbonFootprint [''height'' \<mapsto> PNum (PInt (- 1))]"

definition huge_height :: DeviceCarbonFootprint where
  "huge_height = DeviceCarbonFootprint [''height'' \<mapsto> PNum (PInt (10 ^ int_max_str_digits))]"

definition record_c :: DeviceCarbonFootprint where
  "record_c =
     DeviceCarbonFootprint
       [''name'' \<mapsto> PStr ''X'', ''weight'' \<mapsto> PNum (PFloat (Fin (3 / 2))),
        ''height'' \<mapsto> PNum (PInt 12)]"

text \<open>
  The row of a record in the words of the specification: the values of the fields in the
  order of the schema, each as a string, a float with its decimal point turned into a
  comma in the semicolon mode. The values that \<^verbatim>\<open>str\<close> converts are the strings, the floats
  and the integers of at most 4300 digits.
\<close>

fun printable :: "pyval \<Rightarrow> bool" where
  "printable (PNum (PInt n)) = (length (digits (nat \<bar>n\<bar>)) \<le> int_max_str_digits)"
| "printable _ = True"

definition delimiter :: "csv_format \<Rightarrow> char" where
  "delimiter fmt = (case fmt of FR \<Rightarrow> CHR '';'' | US \<Rightarrow> CHR '','')"

definition decimal_comma :: "string \<Rightarrow> string" where
  "decimal_comma s = map (\<lambda>c. if c = CHR ''.'' then CHR '','' else c) s"

fun spec_cell :: "(pyfloat \<Rightarrow> string) \<Rightarrow> csv_format \<Rightarrow> pyval \<Rightarrow> string" where
  "spec_cell float_repr FR (PNum (PFloat x)) = decimal_comma (float_repr x)"
| "spec_cell float_repr US (PNum (PFloat x)) = float_repr x"
| "spec_cell float_repr fmt (PNum (PInt n)) = decimal n"
| "spec_cell float_repr fmt (PStr s) = s"

definition spec_cells :: "(pyfloat \<Rightarrow> string) \<Rightarrow> DeviceCarbonFootprint \<Rightarrow> csv_format \<Rightarrow> string list" where
  "spec_cells float_repr d fmt = map (\<lambda>key. spec_cell float_repr fmt (value_at d key)) schema_keys"

text \<open>
  The values on which the tolerance of the comparators is not negative: strings, numbers
  that are not negative (and convert to a float), the zeros and not-a-number.
\<close>

fun not_negative :: "pyval \<Rightarrow> bool" where
  "not_negative (PStr s) = True"
| "not_negative (PNum (PInt n)) = (0 \<le> n \<and> (\<exists>x. float_of_int n = Inr x))"
| "not_negative (PNum (PFloat (Fin p))) = (0 \<le> p)"
| "not_negative (PNum (PFloat NegZero)) = True"
| "not_negative (PNum (PFloat NaN)) = True"
| "not_negative (PNum (PFloat PInf)) = False"
| "not_negative (PNum (PFloat NInf)) = False"

section \<open>Rounding: correctness of the exponent and evaluation rules\<close>

lemma ilog2_bounds:
  assumes "0 < q"
  shows "2 powi (ilog2 q) \<le> q \<and> q < 2 powi (ilog2 q + 1)"
proof (cases "1 \<le> q")
  case True
  define n where "n = \<lfloor>q\<rfloor>"
  have n: "0 < n" using True by (simp add: n_def)
  from bitlen_bounds[OF n] have b: "2 ^ nat (bitlen n - 1) \<le> n" "n < 2 ^ nat (bitlen n)" by auto
  have b1: "1 \<le> bitlen n" using n by (simp add: bitlen_alt_def)
  have "(2::rat) ^ nat (bitlen n - 1) \<le> of_int n" using b(1)
    by (metis of_int_le_iff of_int_numeral of_int_power)
  also have "\<dots> \<le> q" by (simp add: n_def)
  finally have l: "(2::rat) powi (bitlen n - 1) \<le> q" using b1 by (simp add: power_int_def)
  have "n + 1 \<le> 2 ^ nat (bitlen n)" using b(2) by simp
  then have "(of_int (n + 1) :: rat) \<le> 2 ^ nat (bitlen n)"
    by (metis of_int_le_iff of_int_numeral of_int_power)
  moreover have "q < of_int (n + 1)" unfolding n_def by linarith
  ultimately have u: "q < (2::rat) powi (bitlen n)" using b1 by (simp add: power_int_def)
  show ?thesis using True l u by (simp add: ilog2_def n_def)
next
  case False
  define x where "x = 1 / q"
  define m where "m = \<lceil>x\<rceil> - 1"
  have x1: "1 < x" using False assms by (simp add: x_def)
  have m: "0 < m" using x1 by (simp add: m_def)
  from bitlen_bounds[OF m] have b: "2 ^ nat (bitlen m - 1) \<le> m" "m < 2 ^ nat (bitlen m)" by auto
  have b1: "1 \<le> bitlen m" using m by (simp add: bitlen_alt_def)
  have "(2::rat) ^ nat (bitlen m - 1) \<le> of_int m" using b(1)
    by (metis of_int_le_iff of_int_numeral of_int_power)
  also have "\<dots> < x" unfolding m_def by linarith
  finally have l: "(2::rat) ^ nat (bitlen m - 1) < x" .
  have "m + 1 \<le> 2 ^ nat (bitlen m)" using b(2) by simp
  then have "(of_int (m + 1) :: rat) \<le> 2 ^ nat (bitlen m)"
    by (metis of_int_le_iff of_int_numeral of_int_power)
  moreover have "x \<le> of_int (m + 1)" unfolding m_def by simp
  ultimately have u: "x \<le> (2::rat) ^ nat (bitlen m)" by simp
  have q: "q = 1 / x" using assms by (simp add: x_def)
  have p1: "(2::rat) powi (- bitlen m) = 1 / 2 ^ nat (bitlen m)"
  proof -
    have "(2::rat) powi (- bitlen m) = 1 / 2 powi (bitlen m)" by (rule power_int_minus_divide)
    also have "\<dots> = 1 / 2 ^ nat (bitlen m)" using b1 by (simp add: power_int_def)
    finally show ?thesis .
  qed
  have p2: "(2::rat) powi (- bitlen m + 1) = 1 / 2 ^ nat (bitlen m - 1)"
  proof -
    have "(2::rat) powi (- bitlen m + 1) = 2 powi (- (bitlen m - 1))" by simp
    also have "\<dots> = 1 / 2 powi (bitlen m - 1)" by (rule power_int_minus_divide)
    also have "\<dots> = 1 / 2 ^ nat (bitlen m - 1)" using b1 by (simp add: power_int_def)
    finally show ?thesis .
  qed
  have "1 / (2::rat) ^ nat (bitlen m) \<le> q" unfolding q using u x1
    by (simp add: frac_le)
  then have L: "(2::rat) powi (- bitlen m) \<le> q" by (simp only: p1)
  have "q < 1 / (2::rat) ^ nat (bitlen m - 1)" unfolding q using l
    by (simp add: frac_less2)
  then have U: "q < (2::rat) powi (- bitlen m + 1)" by (simp only: p2)
  show ?thesis using False L U by (simp add: ilog2_def m_def x_def)
qed

lemma ilog2_eqI:
  assumes "2 powi k \<le> q" "q < 2 powi (k + 1)"
  shows "ilog2 q = k"
proof -
  have "(0::rat) < 2 powi k" by simp
  then have q: "0 < q" using assms(1) by linarith
  from ilog2_bounds[OF q] have b: "2 powi (ilog2 q) \<le> q" "q < 2 powi (ilog2 q + 1)" by auto
  have "(2::rat) powi k < 2 powi (ilog2 q + 1)" using assms(1) b(2) by simp
  then have 1: "k < ilog2 q + 1"
    using power_int_increasing[of "ilog2 q + 1" k "2::rat"] by (cases "k < ilog2 q + 1") auto
  have "(2::rat) powi (ilog2 q) < 2 powi (k + 1)" using assms(2) b(1) by simp
  then have 2: "ilog2 q < k + 1"
    using power_int_increasing[of "k + 1" "ilog2 q" "2::rat"] by (cases "ilog2 q < k + 1") auto
  show ?thesis using 1 2 by simp
qed

lemma round_half_even_eqI:
  assumes "of_int n - 1 / 2 < x" "x < of_int n + 1 / 2"
  shows "round_half_even x = n"
proof -
  have "\<lfloor>x\<rfloor> = n \<or> \<lfloor>x\<rfloor> = n - 1" using assms by linarith
  then show ?thesis
  proof
    assume f: "\<lfloor>x\<rfloor> = n"
    then have "x - of_int n < 1 / 2" using assms by simp
    then show ?thesis using f by (simp add: round_half_even_def Let_def)
  next
    assume f: "\<lfloor>x\<rfloor> = n - 1"
    then have "1 / 2 < x - of_int (n - 1)" using assms by simp
    then show ?thesis using f by (simp add: round_half_even_def Let_def)
  qed
qed

lemma round_mag_eqI:
  assumes "2 powi k \<le> q" "q < 2 powi (k + 1)" "e = max (k - 52) (- 1074)"
    and "of_int n - 1 / 2 < q / 2 powi e" "q / 2 powi e < of_int n + 1 / 2"
  shows "round_mag q = of_int n * 2 powi e"
proof -
  have "ilog2 q = k" using assms(1,2) by (rule ilog2_eqI)
  moreover have "round_half_even (q / 2 powi e) = n"
    using assms(4,5) by (rule round_half_even_eqI)
  ultimately show ?thesis using assms(3) by (simp add: round_mag_def)
qed

lemma fl_eqI:
  assumes "round_mag \<bar>q\<bar> = r" "q \<noteq> 0" "r < 2 ^ 1024" "r \<noteq> 0"
  shows "fl q = Fin (if q < 0 then - r else r)"
  using assms by (simp add: fl_def Let_def)

lemma fabs_fl_minus: "fabs (fl (- q)) = fabs (fl q)"
  by (simp add: fl_def Let_def)

text \<open>The two tolerances, and the floats of the examples below.\<close>

lemma lit_2e_3: "float_2e_3 = Fin (1152921504606847 / 576460752303423488)"
proof -
  have "round_mag \<bar>2 / 10 ^ 3\<bar> = of_int 4611686018427388 * 2 powi (- 61)"
    by (rule round_mag_eqI[where k = "- 9"]) (simp_all add: power_int_minus_divide)
  from fl_eqI[OF this] show ?thesis
    unfolding float_2e_3_def by (simp add: power_int_minus_divide)
qed

lemma lit_0_05: "float_0_05 = Fin (3602879701896397 / 72057594037927936)"
proof -
  have "round_mag \<bar>5 / 10 ^ 2\<bar> = of_int 7205759403792794 * 2 powi (- 57)"
    by (rule round_mag_eqI[where k = "- 5"]) (simp_all add: power_int_minus_divide)
  from fl_eqI[OF this] show ?thesis
    unfolding float_0_05_def by (simp add: power_int_minus_divide)
qed

lemma fl_one: "fl 1 = Fin 1"
proof -
  have "round_mag \<bar>1\<bar> = of_int (2 ^ 52) * 2 powi (- 52)"
    by (rule round_mag_eqI[where k = 0]) (simp_all add: power_int_minus_divide)
  from fl_eqI[OF this] show ?thesis by (simp add: power_int_minus_divide)
qed

lemma fl_minus_one: "fl (- 1) = Fin (- 1)"
proof -
  have "round_mag \<bar>- 1\<bar> = of_int (2 ^ 52) * 2 powi (- 52)"
    by (rule round_mag_eqI[where k = 0]) (simp_all add: power_int_minus_divide)
  from fl_eqI[OF this] show ?thesis by (simp add: power_int_minus_divide)
qed

lemma fl_minus_2e_3:
  "fl (- (1152921504606847 / 576460752303423488)) = Fin (- (1152921504606847 / 576460752303423488))"
proof -
  have "round_mag \<bar>- (1152921504606847 / 576460752303423488)\<bar>
          = of_int 4611686018427388 * 2 powi (- 61)"
    by (rule round_mag_eqI[where k = "- 9"]) (simp_all add: power_int_minus_divide)
  from fl_eqI[OF this] show ?thesis by (simp add: power_int_minus_divide)
qed

lemma fl_minus_0_05:
  "fl (- (3602879701896397 / 72057594037927936)) = Fin (- (3602879701896397 / 72057594037927936))"
proof -
  have "round_mag \<bar>- (3602879701896397 / 72057594037927936)\<bar>
          = of_int 7205759403792794 * 2 powi (- 57)"
    by (rule round_mag_eqI[where k = "- 5"]) (simp_all add: power_int_minus_divide)
  from fl_eqI[OF this] show ?thesis by (simp add: power_int_minus_divide)
qed

lemma abs_diff_le_2e_3_minus_one: "abs_diff_le float_2e_3 (PInt (- 1)) (PInt (- 1)) = Inr False"
  by (simp add: abs_diff_le_def py_max_def num_gt_def fgt_def float_times_def float_of_int_def
      fl_minus_one lit_2e_3 fl_minus_2e_3 num_le_def)

lemma abs_diff_le_0_05_minus_one: "abs_diff_le float_0_05 (PInt (- 1)) (PInt (- 1)) = Inr False"
  by (simp add: abs_diff_le_def py_max_def num_gt_def fgt_def float_times_def float_of_int_def
      fl_minus_one lit_0_05 fl_minus_0_05 num_le_def)

lemma are_equal_minus_one: "are_equal (PNum (PInt (- 1))) (PNum (PInt (- 1))) = Inr False"
  by (simp add: abs_diff_le_2e_3_minus_one)

lemma is_double_tiny: "is_double tiny"
proof -
  have "round_mag \<bar>- 20 / 2 ^ 1074\<bar> = of_int 20 * 2 powi (- 1074)"
    by (rule round_mag_eqI[where k = "- 1070"]) (simp_all add: power_int_minus_divide)
  from fl_eqI[OF this] show ?thesis by (simp add: tiny_def power_int_minus_divide)
qed

lemma fmul_2e_3_tiny: "fmul float_2e_3 tiny = NegZero"
proof -
  have "round_mag \<bar>1152921504606847 / 576460752303423488 * (- 20 / 2 ^ 1074)\<bar>
          = of_int 0 * 2 powi (- 1074)"
    by (rule round_mag_eqI[where k = "- 1079"]) (simp_all add: power_int_minus_divide)
  then show ?thesis by (simp add: lit_2e_3 tiny_def fl_def)
qed

lemma fmul_0_05_tiny: "fmul float_0_05 tiny = Fin (- 1 / 2 ^ 1074)"
proof -
  have "round_mag \<bar>3602879701896397 / 72057594037927936 * (- 20 / 2 ^ 1074)\<bar>
          = of_int 1 * 2 powi (- 1074)"
    by (rule round_mag_eqI[where k = "- 1074"]) (simp_all add: power_int_minus_divide)
  from fl_eqI[OF this] show ?thesis by (simp add: lit_0_05 tiny_def power_int_minus_divide)
qed

lemma fsub_tiny: "fsub tiny tiny = Fin 0"
  by (simp add: tiny_def fl_def)

lemma fgt_irrefl: "\<not> fgt x x"
  by (cases x) (simp_all add: fgt_def)

lemma are_equal_tiny: "are_equal (PNum (PFloat tiny)) (PNum (PFloat tiny)) = Inr True"
  by (simp add: abs_diff_le_def py_max_def num_gt_def fgt_irrefl float_times_def num_le_def
      fsub_tiny fmul_2e_3_tiny)

lemma are_close_enough_tiny:
  "are_close_enough lower (PNum (PFloat tiny)) (PNum (PFloat tiny)) = Inr False"
  by (simp add: abs_diff_le_def py_max_def num_gt_def fgt_irrefl float_times_def num_le_def
      fsub_tiny fmul_0_05_tiny)

section \<open>The comparators do not depend on the order of their arguments\<close>

lemma fl_zero: "fl 0 = Fin 0"
  by (simp add: fl_def)

lemma fabs_fsub_commute: "fabs (fsub x y) = fabs (fsub y x)"
proof (cases x; cases y)
  fix p q assume "x = Fin p" "y = Fin q"
  then show ?thesis using fabs_fl_minus[of "p - q"] by simp
next
  fix q assume "x = NegZero" "y = Fin q"
  then show ?thesis using fabs_fl_minus[of q] by (simp add: fl_zero)
next
  fix p assume "x = Fin p" "y = NegZero"
  then show ?thesis using fabs_fl_minus[of p] by (simp add: fl_zero)
qed simp_all

lemma fle_total: "\<not> is_nan x \<Longrightarrow> \<not> is_nan y \<Longrightarrow> fle x y \<or> fle y x"
  by (cases x; cases y) auto

lemma fle_antisym: "fle x y \<Longrightarrow> fle y x \<Longrightarrow> x = y \<or> is_zero x \<and> is_zero y"
  by (cases x; cases y) auto

lemma fle_fabs_nan: "is_nan x \<or> is_nan y \<Longrightarrow> fle (fabs (fsub x y)) t = False"
  by (cases x; cases y) auto

lemma fmul_pos_zero:
  "fmul c (Fin 0) =
     (if c = PInf \<or> c = NInf \<or> c = NaN then NaN else if sign_bit c then NegZero else Fin 0)"
  by (cases c) simp_all

lemma fmul_neg_zero:
  "fmul c NegZero =
     (if c = PInf \<or> c = NInf \<or> c = NaN then NaN else if sign_bit c then Fin 0 else NegZero)"
  by (cases c) simp_all

lemma is_zero_cases: "is_zero z \<Longrightarrow> z = Fin 0 \<or> z = NegZero"
  by (cases z) simp_all

lemma fmul_zero_cases:
  assumes "is_zero z" "is_zero z'"
  shows "is_nan (fmul c z) \<and> is_nan (fmul c z') \<or> is_zero (fmul c z) \<and> is_zero (fmul c z')"
proof -
  have "is_nan (fmul c (Fin 0)) \<and> is_nan (fmul c NegZero)
      \<or> is_zero (fmul c (Fin 0)) \<and> is_zero (fmul c NegZero)"
    by (simp add: fmul_pos_zero fmul_neg_zero)
  then show ?thesis using is_zero_cases[OF assms(1)] is_zero_cases[OF assms(2)] by blast
qed

lemma fle_zero_sign: "is_zero t \<Longrightarrow> is_zero t' \<Longrightarrow> fle d t = fle d t'"
  by (cases t; cases t'; cases d) simp_all

lemma fle_nan_right: "is_nan t \<Longrightarrow> fle d t = False"
  by (cases t; cases d) simp_all

lemma fle_fmul_zero:
  assumes "is_zero z" "is_zero z'"
  shows "fle d (fmul c z) = fle d (fmul c z')"
  using fmul_zero_cases[OF assms, of c] fle_zero_sign[of "fmul c z" "fmul c z'" d]
    fle_nan_right[of "fmul c z" d] fle_nan_right[of "fmul c z'" d]
  by blast

lemma fl_not_nan: "\<not> is_nan (fl q)"
  by (simp add: fl_def Let_def)

lemma as_float_nan: "as_float a = Inr x \<Longrightarrow> is_nan (exact a) = is_nan x"
proof (cases a)
  case (PInt n)
  assume "as_float a = Inr x"
  then have "x = fl (of_int n)"
    using PInt by (simp add: float_of_int_def split: pyfloat.splits)
  then show ?thesis using PInt fl_not_nan[of "of_int n"] by simp
qed simp

lemma as_float_exact:
  assumes "as_float a = Inr x" "as_float b = Inr y" "py_value (PNum a)" "py_value (PNum b)"
    and "fle (exact a) (exact b)" "fle (exact b) (exact a)"
  shows "x = y \<or> is_zero x \<and> is_zero y"
proof -
  have fin: "fl (of_int n) = Fin q \<Longrightarrow> is_double (Fin q') \<Longrightarrow> of_int n = q' \<Longrightarrow> q = q'"
    for n :: int and q q' by simp
  from fle_antisym[OF assms(5,6)] show ?thesis
  proof
    assume e: "exact a = exact b"
    show ?thesis
    proof (cases a; cases b)
      fix m n assume "a = PInt m" "b = PInt n"
      then show ?thesis using e assms(1,2) by simp
    next
      fix m y' assume ab: "a = PInt m" "b = PFloat y'"
      then have "y = Fin (of_int m)" "is_double (Fin (of_int m))" using e assms(2,4) by auto
      then show ?thesis using ab assms(1) by (simp add: float_of_int_def)
    next
      fix x' n assume ab: "a = PFloat x'" "b = PInt n"
      then have "x = Fin (of_int n)" "is_double (Fin (of_int n))" using e assms(1,3) by auto
      then show ?thesis using ab assms(2) by (simp add: float_of_int_def)
    next
      fix x' y' assume "a = PFloat x'" "b = PFloat y'"
      then show ?thesis using e assms(1,2) by simp
    qed
  next
    assume z: "is_zero (exact a) \<and> is_zero (exact b)"
    have "is_zero x" using z assms(1) by (cases a) (auto simp: float_of_int_def fl_def)
    moreover have "is_zero y" using z assms(2) by (cases b) (auto simp: float_of_int_def fl_def)
    ultimately show ?thesis by simp
  qed
qed

lemma abs_diff_le_floats:
  assumes "as_float a = Inr x" "as_float b = Inr y" "a = PFloat x \<or> b = PFloat y"
  shows "abs_diff_le c a b = Inr (fle (fabs (fsub x y)) (fmul c (if num_gt b a then y else x)))"
  using assms by (cases a; cases b) (auto simp: abs_diff_le_def py_max_def float_times_def num_le_def)

lemma abs_diff_le_commute:
  assumes "py_value (PNum a)" "py_value (PNum b)"
  shows "abs_diff_le c a b = abs_diff_le c b a"
proof (cases "\<exists>m n. a = PInt m \<and> b = PInt n")
  case True
  then obtain m n where ab: "a = PInt m" "b = PInt n" by auto
  have "py_max (PInt m) (PInt n) = py_max (PInt n) (PInt m)"
    by (auto simp: py_max_def num_gt_def fgt_def)
  moreover have "\<bar>m - n\<bar> = \<bar>n - m\<bar>" by simp
  ultimately show ?thesis by (simp add: ab abs_diff_le_def split: sum.splits)
next
  case False
  then have fl: "(\<exists>x. a = PFloat x) \<or> (\<exists>y. b = PFloat y)" by (cases a; cases b) auto
  show ?thesis
  proof (cases "as_float a")
    case (Inl e)
    then obtain m where a: "a = PInt m" by (cases a) auto
    then obtain y where b: "b = PFloat y" using fl by auto
    show ?thesis using Inl a b by (simp add: abs_diff_le_def)
  next
    case (Inr x)
    note fa = this
    show ?thesis
    proof (cases "as_float b")
      case (Inl e)
      then obtain n where b: "b = PInt n" by (cases b) auto
      then obtain x' where a: "a = PFloat x'" using fl by auto
      show ?thesis using Inl a b by (simp add: abs_diff_le_def)
    next
      case (Inr y)
      note fb = this
      have t: "a = PFloat x \<or> b = PFloat y" using fl fa fb by auto
      have t': "b = PFloat y \<or> a = PFloat x" using t by auto
      have nan: "is_nan (exact a) = is_nan x" "is_nan (exact b) = is_nan y"
        using as_float_nan[OF fa] as_float_nan[OF fb] by simp_all
      have "fle (fabs (fsub x y)) (fmul c (if num_gt b a then y else x))
          = fle (fabs (fsub y x)) (fmul c (if num_gt a b then x else y))"
      proof (cases "is_nan x \<or> is_nan y")
        case True
        then show ?thesis using fle_fabs_nan[of x y] fle_fabs_nan[of y x] by auto
      next
        case False
        then have nn: "\<not> is_nan (exact a)" "\<not> is_nan (exact b)" using nan by auto
        consider "num_gt b a" | "num_gt a b" | "\<not> num_gt b a" "\<not> num_gt a b" by auto
        then show ?thesis
        proof cases
          case 1
          then have "\<not> num_gt a b" using fle_total[OF nn] by (auto simp: num_gt_def fgt_def)
          then show ?thesis using 1 by (simp add: fabs_fsub_commute)
        next
          case 2
          then have "\<not> num_gt b a" using fle_total[OF nn] by (auto simp: num_gt_def fgt_def)
          then show ?thesis using 2 by (simp add: fabs_fsub_commute)
        next
          case 3
          then have "fle (exact a) (exact b)" "fle (exact b) (exact a)"
            using nn by (auto simp: num_gt_def fgt_def)
          from as_float_exact[OF fa fb assms this]
          have "x = y \<or> is_zero x \<and> is_zero y" .
          then show ?thesis using 3 fle_fmul_zero[of x y "fabs (fsub y x)" c]
            by (auto simp: fabs_fsub_commute)
        qed
      qed
      then show ?thesis
        using abs_diff_le_floats[OF fa fb t] abs_diff_le_floats[OF fb fa t'] by simp
    qed
  qed
qed

lemma are_equal_commute_aux:
  "py_value a \<Longrightarrow> py_value b \<Longrightarrow> are_equal a b = are_equal b a"
  by (cases a; cases b) (auto simp: abs_diff_le_commute)

lemma are_close_enough_commute_aux:
  "py_value a \<Longrightarrow> py_value b \<Longrightarrow> are_close_enough lower a b = are_close_enough lower b a"
  by (cases a; cases b) (auto simp: abs_diff_le_commute Let_def)

section \<open>The accessor on the fields of the schema\<close>

lemma get_schema: "key \<in> set schema_keys \<Longrightarrow> get d key = Inr (value_at d key)"
  by (simp add: get_def value_at_def split: option.splits)

lemma get_stored: "data d key = Some v \<Longrightarrow> get d key = Inr v"
  by (simp add: get_def)

section \<open>The loop of the merger\<close>

lemma merge_key_schema:
  assumes "key \<in> set schema_keys" "merge_key lower d1 d2 st key = Inr st'"
  shows "st' =
     (if first_wins d1 d2 key then keep1 st key (value_at d1 key)
      else if is_conflict lower d1 d2 key then st\<lparr>conflicts := conflicts st @ [key]\<rparr>
      else keep2 st key (value_at d2 key))"
proof -
  obtain e1 where e1: "is_empty (value_at d1 key) = Inr e1"
    using assms by (cases "is_empty (value_at d1 key)") (simp_all add: merge_key_def get_schema)
  obtain e2 where e2: "is_empty (value_at d2 key) = Inr e2"
    using assms e1 by (cases "is_empty (value_at d2 key)") (simp_all add: merge_key_def get_schema)
  show ?thesis
  proof (cases "e1 \<or> e2")
    case True
    then show ?thesis
      using assms e1 e2
      by (cases e1; cases e2) (simp_all add: merge_key_def get_schema first_wins_def is_conflict_def)
  next
    case False
    then have ne: "\<not> e1" "\<not> e2" by auto
    obtain eq where eq: "are_equal (value_at d1 key) (value_at d2 key) = Inr eq"
      using assms e1 e2 ne
      by (cases "are_equal (value_at d1 key) (value_at d2 key)") (simp_all add: merge_key_def get_schema)
    show ?thesis
    proof (cases eq)
      case True
      then show ?thesis
        using assms e1 e2 ne eq by (simp add: merge_key_def get_schema first_wins_def is_conflict_def)
    next
      case False
      obtain cl where cl: "are_close_enough lower (value_at d1 key) (value_at d2 key) = Inr cl"
        using assms e1 e2 ne eq False
        by (cases "are_close_enough lower (value_at d1 key) (value_at d2 key)")
          (simp_all add: merge_key_def get_schema)
      show ?thesis
        using assms e1 e2 ne eq False cl
        by (auto simp: merge_key_def get_schema first_wins_def is_conflict_def split: if_splits)
    qed
  qed
qed

lemma merge_loop_schema:
  assumes "set ks \<subseteq> set schema_keys" "merge_loop lower d1 d2 ks st = Inr st'"
  shows "conflicts st' = conflicts st @ filter (is_conflict lower d1 d2) ks"
    and "report0 st' = report0 st \<union> {k \<in> set ks. first_wins d1 d2 k}"
    and "report1 st' =
           report1 st \<union> {k \<in> set ks. \<not> first_wins d1 d2 k \<and> \<not> is_conflict lower d1 d2 k}"
    and "result st' =
           (\<lambda>k. if k \<in> set ks \<and> \<not> is_conflict lower d1 d2 k
                then Some (if first_wins d1 d2 k then value_at d1 k else value_at d2 k)
                else result st k)"
  using assms
proof (induction ks arbitrary: st)
  case Nil
  {
    case 1 then show ?case by simp
  next
    case 2 then show ?case by simp
  next
    case 3 then show ?case by simp
  next
    case 4 then show ?case by simp
  }
next
  case (Cons k ks)
  {
    case 1
    then obtain st1 where s: "merge_key lower d1 d2 st k = Inr st1"
        "merge_loop lower d1 d2 ks st1 = Inr st'"
      by (auto split: sum.splits)
    from 1 have k: "k \<in> set schema_keys" "set ks \<subseteq> set schema_keys" by auto
    have fc: "\<not> (first_wins d1 d2 k \<and> is_conflict lower d1 d2 k)"
      by (auto simp: first_wins_def is_conflict_def)
    show ?case
      using Cons.IH(1)[OF k(2) s(2)] merge_key_schema[OF k(1) s(1)] fc
      by (auto simp: keep1_def keep2_def)
  next
    case 2
    then obtain st1 where s: "merge_key lower d1 d2 st k = Inr st1"
        "merge_loop lower d1 d2 ks st1 = Inr st'"
      by (auto split: sum.splits)
    from 2 have k: "k \<in> set schema_keys" "set ks \<subseteq> set schema_keys" by auto
    have fc: "\<not> (first_wins d1 d2 k \<and> is_conflict lower d1 d2 k)"
      by (auto simp: first_wins_def is_conflict_def)
    show ?case
      using Cons.IH(2)[OF k(2) s(2)] merge_key_schema[OF k(1) s(1)] fc
      by (auto simp: keep1_def keep2_def)
  next
    case 3
    then obtain st1 where s: "merge_key lower d1 d2 st k = Inr st1"
        "merge_loop lower d1 d2 ks st1 = Inr st'"
      by (auto split: sum.splits)
    from 3 have k: "k \<in> set schema_keys" "set ks \<subseteq> set schema_keys" by auto
    have fc: "\<not> (first_wins d1 d2 k \<and> is_conflict lower d1 d2 k)"
      by (auto simp: first_wins_def is_conflict_def)
    show ?case
      using Cons.IH(3)[OF k(2) s(2)] merge_key_schema[OF k(1) s(1)] fc
      by (auto simp: keep1_def keep2_def)
  next
    case 4
    then obtain st1 where s: "merge_key lower d1 d2 st k = Inr st1"
        "merge_loop lower d1 d2 ks st1 = Inr st'"
      by (auto split: sum.splits)
    from 4 have k: "k \<in> set schema_keys" "set ks \<subseteq> set schema_keys" by auto
    have fc: "\<not> (first_wins d1 d2 k \<and> is_conflict lower d1 d2 k)"
      by (auto simp: first_wins_def is_conflict_def)
    show ?case
      using Cons.IH(4)[OF k(2) s(2)] merge_key_schema[OF k(1) s(1)] fc
      by (auto simp: keep1_def keep2_def fun_eq_iff)
  }
qed

lemma keep_first_schema:
  assumes "set cs \<subseteq> set schema_keys"
  shows "\<exists>st'. keep_first d1 cs st = Inr st' \<and>
           result st' = (\<lambda>k. if k \<in> set cs then Some (value_at d1 k) else result st k) \<and>
           report0 st' = report0 st \<union> set cs \<and> report1 st' = report1 st \<and>
           conflicts st' = conflicts st"
  using assms
proof (induction cs arbitrary: st)
  case Nil
  then show ?case by simp
next
  case (Cons c cs)
  then have c: "get d1 c = Inr (value_at d1 c)" "set cs \<subseteq> set schema_keys"
    by (simp_all add: get_schema)
  from Cons.IH[OF c(2), of "keep1 st c (value_at d1 c)"] show ?case
    using c(1) by (auto simp: keep1_def fun_eq_iff)
qed

lemma keep_second_schema:
  assumes "set cs \<subseteq> set schema_keys"
  shows "\<exists>st'. keep_second d2 cs st = Inr st' \<and>
           result st' = (\<lambda>k. if k \<in> set cs then Some (value_at d2 k) else result st k) \<and>
           report0 st' = report0 st \<and> report1 st' = report1 st \<union> set cs \<and>
           conflicts st' = conflicts st"
  using assms
proof (induction cs arbitrary: st)
  case Nil
  then show ?case by simp
next
  case (Cons c cs)
  then have c: "get d2 c = Inr (value_at d2 c)" "set cs \<subseteq> set schema_keys"
    by (simp_all add: get_schema)
  from Cons.IH[OF c(2), of "keep2 st c (value_at d2 c)"] show ?case
    using c(1) by (auto simp: keep2_def fun_eq_iff)
qed

text \<open>
  What \<open>merge\<close> returns, when it returns: \<open>chosen\<close> says that the operator answered \<open>o\<close> at
  the prompt.
\<close>

lemma merge_schema:
  assumes "merge lower d1 d2 conflict verbose stdin = Inr (m, (r0, r1), cs)"
  defines "chosen \<equiv> conflict = Interactive \<and> stdin = Some ''o''"
  shows "cs = filter (is_conflict lower d1 d2) schema_keys"
    and "r0 = {k \<in> set schema_keys. first_wins d1 d2 k \<or> chosen \<and> is_conflict lower d1 d2 k}"
    and "r1 = {k \<in> set schema_keys.
                 \<not> first_wins d1 d2 k \<and> \<not> (chosen \<and> is_conflict lower d1 d2 k)}"
    and "data m =
           (\<lambda>k. if k \<in> set schema_keys
                then Some (if first_wins d1 d2 k \<or> chosen \<and> is_conflict lower d1 d2 k
                           then value_at d1 k else value_at d2 k)
                else None)"
proof -
  let ?init = "\<lparr>result = Map.empty, report0 = {}, report1 = {}, conflicts = []\<rparr>"
  let ?conf = "is_conflict lower d1 d2"
  obtain st where st: "merge_loop lower d1 d2 schema_keys ?init = Inr st"
    using assms(1) by (auto simp: merge_def split: sum.splits)
  note loop = merge_loop_schema[OF subset_refl st]
  have fc: "\<not> (first_wins d1 d2 k \<and> ?conf k)" for k
    by (auto simp: first_wins_def is_conflict_def)
  have sub: "set (conflicts st) \<subseteq> set schema_keys" using loop(1) by auto
  have mem: "k \<in> set (conflicts st) \<longleftrightarrow> k \<in> set schema_keys \<and> ?conf k" for k
    using loop(1) by auto
  have all: "cs = filter ?conf schema_keys \<and>
      r0 = {k \<in> set schema_keys. first_wins d1 d2 k \<or> chosen \<and> ?conf k} \<and>
      r1 = {k \<in> set schema_keys. \<not> first_wins d1 d2 k \<and> \<not> (chosen \<and> ?conf k)} \<and>
      data m = (\<lambda>k. if k \<in> set schema_keys
                then Some (if first_wins d1 d2 k \<or> chosen \<and> ?conf k
                           then value_at d1 k else value_at d2 k)
                else None)"
  proof (cases "conflicts st = []")
    case True
    then have none: "\<not> (k \<in> set schema_keys \<and> ?conf k)" for k using mem[of k] by simp
    have "(m, (r0, r1), cs) = returned st"
      using assms(1) st True by (simp add: merge_def)
    then show ?thesis
      using loop True none by (auto simp: returned_def fun_eq_iff)
  next
    case False
    show ?thesis
    proof (cases chosen)
      case True
      obtain st' where st': "keep_first d1 (conflicts st) st = Inr st'"
          "result st' = (\<lambda>k. if k \<in> set (conflicts st) then Some (value_at d1 k) else result st k)"
          "report0 st' = report0 st \<union> set (conflicts st)" "report1 st' = report1 st"
          "conflicts st' = conflicts st"
        using keep_first_schema[OF sub, of d1 st] by blast
      have "(m, (r0, r1), cs) = returned st'"
        using assms(1) st False True st'(1) by (simp add: merge_def chosen_def py_input_def)
      then show ?thesis
        using loop st'(2-5) True mem fc by (auto simp: returned_def fun_eq_iff)
    next
      case nc: False
      obtain st' where st': "keep_second d2 (conflicts st) st = Inr st'"
          "result st' = (\<lambda>k. if k \<in> set (conflicts st) then Some (value_at d2 k) else result st k)"
          "report0 st' = report0 st" "report1 st' = report1 st \<union> set (conflicts st)"
          "conflicts st' = conflicts st"
        using keep_second_schema[OF sub, of d2 st] by blast
      have "(m, (r0, r1), cs) = returned st'"
        using assms(1) st False nc st'(1)
        by (auto simp: merge_def chosen_def py_input_def split: if_splits option.splits sum.splits)
      then show ?thesis
        using loop st'(2-5) nc mem fc by (auto simp: returned_def fun_eq_iff)
    qed
  qed
  show "cs = filter ?conf schema_keys" using all by blast
  show "r0 = {k \<in> set schema_keys. first_wins d1 d2 k \<or> chosen \<and> ?conf k}" using all by blast
  show "r1 = {k \<in> set schema_keys. \<not> first_wins d1 d2 k \<and> \<not> (chosen \<and> ?conf k)}"
    using all by blast
  show "data m = (\<lambda>k. if k \<in> set schema_keys
                then Some (if first_wins d1 d2 k \<or> chosen \<and> ?conf k
                           then value_at d1 k else value_at d2 k)
                else None)" using all by blast
qed

section \<open>When the merger returns\<close>

lemma is_empty_as_float:
  "is_empty (PNum n) = Inr e \<Longrightarrow> \<exists>x. as_float n = Inr x"
  by (cases n) (auto split: sum.splits)

lemma abs_diff_le_total:
  assumes "as_float a = Inr x" "as_float b = Inr y"
  shows "\<exists>r. abs_diff_le c a b = Inr r"
proof -
  have "\<exists>d. num_sub a b = Inr d" using assms by (cases a; cases b) auto
  moreover have "\<exists>t. float_times c (py_max a b) = Inr t"
    using assms by (auto simp: float_times_def py_max_def)
  ultimately show ?thesis by (auto simp: abs_diff_le_def)
qed

lemma are_equal_total:
  assumes "is_empty v1 = Inr e1" "is_empty v2 = Inr e2"
  shows "\<exists>r. are_equal v1 v2 = Inr r"
proof (cases v1; cases v2)
  fix a b assume v: "v1 = PNum a" "v2 = PNum b"
  then obtain x y where "as_float a = Inr x" "as_float b = Inr y"
    using assms is_empty_as_float by blast
  then show ?thesis using v abs_diff_le_total by simp
qed auto

lemma are_close_enough_total:
  assumes "is_empty v1 = Inr e1" "is_empty v2 = Inr e2"
  shows "\<exists>r. are_close_enough lower v1 v2 = Inr r"
proof (cases v1; cases v2)
  fix a b assume v: "v1 = PNum a" "v2 = PNum b"
  then obtain x y where "as_float a = Inr x" "as_float b = Inr y"
    using assms is_empty_as_float by blast
  then show ?thesis using v abs_diff_le_total by simp
qed (auto simp: Let_def)

lemma merge_key_total:
  assumes "key \<in> set schema_keys"
    and "is_empty (value_at d1 key) = Inr e1" "is_empty (value_at d2 key) = Inr e2"
  shows "\<exists>st'. merge_key lower d1 d2 st key = Inr st'"
proof -
  obtain eq where eq: "are_equal (value_at d1 key) (value_at d2 key) = Inr eq"
    using are_equal_total[OF assms(2,3)] by blast
  obtain cl where cl: "are_close_enough lower (value_at d1 key) (value_at d2 key) = Inr cl"
    using are_close_enough_total[OF assms(2,3)] by blast
  show ?thesis using assms eq cl by (simp add: merge_key_def get_schema)
qed

lemma merge_loop_total:
  assumes "set ks \<subseteq> set schema_keys"
    and "\<forall>k \<in> set ks. (\<exists>e. is_empty (value_at d1 k) = Inr e) \<and> (\<exists>e. is_empty (value_at d2 k) = Inr e)"
  shows "\<exists>st'. merge_loop lower d1 d2 ks st = Inr st'"
  using assms
proof (induction ks arbitrary: st)
  case Nil
  then show ?case by simp
next
  case (Cons k ks)
  from Cons.prems obtain e1 e2 where e: "k \<in> set schema_keys"
      "is_empty (value_at d1 k) = Inr e1" "is_empty (value_at d2 k) = Inr e2"
    by auto
  obtain st1 where s1: "merge_key lower d1 d2 st k = Inr st1"
    using merge_key_total[OF e, of lower st] by blast
  obtain st' where "merge_loop lower d1 d2 ks st1 = Inr st'"
    using Cons.IH[of st1] Cons.prems by auto
  then show ?case using s1 by simp
qed

text \<open>
  \<open>merge\<close> returns whenever \<open>is_empty\<close> raises on no field of either record (no integer is
  too large for a float) and, under the interactive policy, a line can be read.
\<close>

lemma merge_total:
  assumes "\<forall>k \<in> set schema_keys.
             (\<exists>e. is_empty (value_at d1 k) = Inr e) \<and> (\<exists>e. is_empty (value_at d2 k) = Inr e)"
    and "conflict = Interactive \<longrightarrow> stdin \<noteq> None"
  shows "\<exists>m r0 r1 cs. merge lower d1 d2 conflict verbose stdin = Inr (m, (r0, r1), cs)"
proof -
  let ?init = "\<lparr>result = Map.empty, report0 = {}, report1 = {}, conflicts = []\<rparr>"
  obtain st where st: "merge_loop lower d1 d2 schema_keys ?init = Inr st"
    using merge_loop_total[OF subset_refl assms(1)] by blast
  have sub: "set (conflicts st) \<subseteq> set schema_keys"
    using merge_loop_schema(1)[OF subset_refl st] by auto
  obtain s1 where s1: "keep_first d1 (conflicts st) st = Inr s1"
    using keep_first_schema[OF sub, of d1 st] by blast
  obtain s2 where s2: "keep_second d2 (conflicts st) st = Inr s2"
    using keep_second_schema[OF sub, of d2 st] by blast
  show ?thesis
    using st s1 s2 assms(2)
    by (auto simp: merge_def returned_def py_input_def split: option.splits)
qed

lemma merge_loop_is_empty:
  assumes "set ks \<subseteq> set schema_keys" "merge_loop lower d1 d2 ks st = Inr st'" "k \<in> set ks"
  shows "(\<exists>e. is_empty (value_at d1 k) = Inr e) \<and> (\<exists>e. is_empty (value_at d2 k) = Inr e)"
  using assms
proof (induction ks arbitrary: st)
  case Nil
  then show ?case by simp
next
  case (Cons a ks)
  then obtain st1 where s: "merge_key lower d1 d2 st a = Inr st1"
      "merge_loop lower d1 d2 ks st1 = Inr st'"
    by (auto split: sum.splits)
  show ?case
  proof (cases "k = a")
    case True
    then show ?thesis
      using s(1) Cons.prems(1) by (auto simp: merge_key_def get_schema split: sum.splits)
  next
    case False
    then show ?thesis using Cons.IH[OF _ s(2)] Cons.prems by auto
  qed
qed

text \<open>Under the keep-second policy these are the only records on which \<open>merge\<close> raises.\<close>

lemma merge_returns_iff:
  "(\<exists>res. merge lower d1 d2 Keep2nd verbose stdin = Inr res) \<longleftrightarrow>
   (\<forall>k \<in> set schema_keys.
      (\<exists>e. is_empty (value_at d1 k) = Inr e) \<and> (\<exists>e. is_empty (value_at d2 k) = Inr e))"
proof
  assume "\<exists>res. merge lower d1 d2 Keep2nd verbose stdin = Inr res"
  then obtain st where "merge_loop lower d1 d2 schema_keys
      \<lparr>result = Map.empty, report0 = {}, report1 = {}, conflicts = []\<rparr> = Inr st"
    by (auto simp: merge_def split: sum.splits)
  then show "\<forall>k \<in> set schema_keys.
      (\<exists>e. is_empty (value_at d1 k) = Inr e) \<and> (\<exists>e. is_empty (value_at d2 k) = Inr e)"
    using merge_loop_is_empty[OF subset_refl] by blast
next
  assume "\<forall>k \<in> set schema_keys.
      (\<exists>e. is_empty (value_at d1 k) = Inr e) \<and> (\<exists>e. is_empty (value_at d2 k) = Inr e)"
  then show "\<exists>res. merge lower d1 d2 Keep2nd verbose stdin = Inr res"
    using merge_total[of d1 d2 Keep2nd stdin lower verbose] by auto
qed

section \<open>Stripping a string without whitespace\<close>

lemma whitespace_heads:
  "hd ` set whitespace =
     {CHR 0x09, CHR 0x0A, CHR 0x0B, CHR 0x0C, CHR 0x0D, CHR 0x1C, CHR 0x1D, CHR 0x1E, CHR 0x1F,
      CHR 0x20, CHR 0xC2, CHR 0xE1, CHR 0xE2, CHR 0xE3}"
  by (simp add: whitespace_def upt_rec[of "numeral _"]) code_simp

lemma ws_len_plain: "ws_len (c # s) = 0" if "c \<notin> hd ` set whitespace"
proof -
  have "\<not> prefix w (c # s)" if "w \<in> set whitespace" for w
  proof
    assume "prefix w (c # s)"
    moreover have "w \<noteq> []" using that by (auto simp: whitespace_def)
    ultimately have "hd w = c" by (cases w) auto
    then show False using \<open>c \<notin> hd ` set whitespace\<close> that by auto
  qed
  then have "find (\<lambda>w. prefix w (c # s)) whitespace = None" by (simp add: find_None_iff)
  then show ?thesis by (simp add: ws_len_def)
qed

lemma chars_plain:
  "set s \<inter> hd ` set whitespace = {} \<Longrightarrow> chars s = map (\<lambda>c. [c]) s"
  by (induction s) (auto simp: ws_len_plain)

lemma is_space_single: "c \<notin> hd ` set whitespace \<Longrightarrow> \<not> is_space [c]"
proof
  assume "c \<notin> hd ` set whitespace" "is_space [c]"
  then have "[c] \<in> set whitespace" by (simp add: is_space_def)
  then have "hd [c] \<in> hd ` set whitespace" by (rule imageI)
  then show False using \<open>c \<notin> hd ` set whitespace\<close> by simp
qed

lemma strip_plain:
  assumes "set s \<inter> hd ` set whitespace = {}"
  shows "strip s = s"
proof (cases s rule: rev_cases)
  case Nil
  then show ?thesis by (simp add: strip_def)
next
  case (snoc t c)
  then have "s \<noteq> []" by simp
  then obtain a u where s: "s = a # u" by (cases s) auto
  have "a \<in> set s" using s by simp
  moreover have "c \<in> set s" unfolding snoc by simp
  ultimately have "a \<notin> hd ` set whitespace" "c \<notin> hd ` set whitespace"
    using assms by blast+
  then have a: "\<not> is_space [a]" "\<not> is_space [c]"
    by (simp_all add: is_space_single)
  have "dropWhile is_space (chars s) = chars s"
    using a(1) s chars_plain[OF assms] by simp
  moreover have "dropWhile is_space (rev (chars s)) = rev (chars s)"
    using a(2) snoc chars_plain[OF assms] by simp
  ultimately show ?thesis using chars_plain[OF assms] by (simp add: strip_def)
qed

lemma strip_examples: "strip ''Laptop'' = ''Laptop''" "strip ''Desktop'' = ''Desktop''"
  by (rule strip_plain, simp add: whitespace_heads)+


lemma collapse_plain: "\<forall>t \<in> set ts. \<not> is_space t \<Longrightarrow> collapse ts = ts"
  by (induction ts rule: collapse.induct) auto

lemma sub_spaces_plain:
  assumes "set s \<inter> hd ` set whitespace = {}"
  shows "sub_spaces s = s"
proof -
  have "\<not> is_space [c]" if "c \<in> set s" for c
    using that assms by (intro is_space_single) blast
  then have "\<forall>t \<in> set (map (\<lambda>c. [c]) s). \<not> is_space t" by auto
  then have "collapse (chars s) = map (\<lambda>c. [c]) s"
    using chars_plain[OF assms] collapse_plain by simp
  then show ?thesis by (simp add: sub_spaces_def)
qed

lemma replace_from_absent: "old \<noteq> [] \<Longrightarrow> hd old \<notin> set s \<Longrightarrow> replace_from old new s = s"
proof (induction s)
  case Nil
  then show ?case by simp
next
  case (Cons c s)
  then have "\<not> prefix old (c # s)" by (cases old) auto
  then show ?case using Cons by simp
qed

lemma replace_quote_plain:
  assumes "set s \<inter> hd ` set whitespace = {}"
  shows "replace right_quote ''in'' s = s"
proof -
  have "CHR 0xE2 \<in> hd ` set whitespace" by (simp add: whitespace_heads)
  then have "hd right_quote \<notin> set s" using assms by (auto simp: right_quote_def)
  then show ?thesis by (simp add: replace_def replace_from_absent right_quote_def)
qed

lemma are_equal_plain:
  assumes "set s \<inter> hd ` set whitespace = {}" "set t \<inter> hd ` set whitespace = {}"
  shows "are_equal (PStr s) (PStr t) = Inr (s = t)"
  using assms by (simp add: strip_plain)

lemma are_close_enough_plain:
  assumes "set s \<inter> hd ` set whitespace = {}" "set t \<inter> hd ` set whitespace = {}"
  shows "are_close_enough lower (PStr s) (PStr t) = Inr (lower s = lower t)"
  using assms by (simp add: strip_plain sub_spaces_plain replace_quote_plain)

section \<open>The examples\<close>

lemma example_strings:
  "replace right_quote ''in'' ''Laptop'' = ''Laptop''"
  "replace right_quote ''in'' ''Desktop'' = ''Desktop''"
  "sub_spaces ''Laptop'' = ''Laptop''" "sub_spaces ''Desktop'' = ''Desktop''"
  by (rule replace_quote_plain sub_spaces_plain, simp add: whitespace_heads)+

lemma example_category:
  "are_equal (PStr ''Laptop'') (PStr ''Desktop'') = Inr False"
  "are_close_enough (\<lambda>s. s) (PStr ''Laptop'') (PStr ''Desktop'') = Inr False"
  by (simp_all add: example_strings strip_examples)

lemma example_returns:
  assumes "conflict = Interactive \<longrightarrow> stdin \<noteq> None"
  shows "\<exists>m r0 r1 cs. merge (\<lambda>s. s) record_a record_b conflict verbose stdin
      = Inr (m, (r0, r1), cs)"
  using assms by (intro merge_total) (auto simp: value_at_def record_a_def record_b_def)

lemma example_keys:
  "''name'' \<in> set schema_keys" "''manufacturer'' \<in> set schema_keys"
  "''category'' \<in> set schema_keys" "''subcategory'' \<in> set schema_keys"
  "''weight'' \<in> set schema_keys" "''foo'' \<notin> set schema_keys"
  by (simp_all add: schema_keys_def annotations_def)

lemma example_values:
  "get record_a ''name'' = Inr (PStr ''X'')" "get record_b ''name'' = Inr (PStr [])"
  "get record_a ''manufacturer'' = Inr (PStr [])" "get record_b ''manufacturer'' = Inr (PStr ''Y'')"
  "get record_a ''subcategory'' = Inr (PStr [])" "get record_b ''subcategory'' = Inr (PStr [])"
  "get record_a ''category'' = Inr (PStr ''Laptop'')"
  "get record_b ''category'' = Inr (PStr ''Desktop'')"
  by (simp_all add: get_def record_a_def record_b_def example_keys)

lemma example_conflicts:
  "filter (is_conflict (\<lambda>s. s) record_a record_b) schema_keys = [''category'']"
  by (simp add: schema_keys_def annotations_def is_conflict_def value_at_def record_a_def
      record_b_def ignore_keys_def example_strings strip_examples)

lemma float_of_int_minus_one: "float_of_int (- 1) = Inr (Fin (- 1))"
  by (simp add: float_of_int_def fl_minus_one)

lemma negative_height_returns:
  "\<exists>m r0 r1 cs. merge lower negative_height negative_height Keep2nd verbose stdin
      = Inr (m, (r0, r1), cs)"
  by (rule merge_total) (auto simp: value_at_def negative_height_def float_of_int_minus_one)

lemma negative_height_conflicts:
  "filter (is_conflict lower negative_height negative_height) schema_keys = [''height'']"
  by (simp add: schema_keys_def annotations_def is_conflict_def value_at_def negative_height_def
      ignore_keys_def float_of_int_minus_one abs_diff_le_2e_3_minus_one abs_diff_le_0_05_minus_one)

section \<open>The row formatter\<close>

lemma get_all_schema: "set ks \<subseteq> set schema_keys \<Longrightarrow> get_all d ks = Inr (map (value_at d) ks)"
  by (induction ks) (simp_all add: get_schema)

lemma replace_from_single:
  "replace_from [c] [d] s = map (\<lambda>x. if x = c then d else x) s"
  by (induction s) auto

lemma replace_decimal_point: "replace ''.'' '','' s = decimal_comma s"
  by (simp add: replace_def replace_from_single decimal_comma_def)

lemma digits_not_Nil: "digits n \<noteq> []"
  by (subst digits.simps) simp

lemma digits_length: "length (digits n) \<le> Suc k \<longleftrightarrow> n < 10 ^ Suc k"
proof (induction k arbitrary: n)
  case 0
  have d: "digits n = (if n < 10 then [''0123456789'' ! n]
                       else digits (n div 10) @ [''0123456789'' ! (n mod 10)])"
    by (rule digits.simps)
  show ?case by (simp add: d digits_not_Nil)
next
  case (Suc k)
  have d: "digits n = (if n < 10 then [''0123456789'' ! n]
                       else digits (n div 10) @ [''0123456789'' ! (n mod 10)])"
    by (rule digits.simps)
  have "length (digits n) \<le> Suc (Suc k) \<longleftrightarrow> n < 10 \<or> length (digits (n div 10)) \<le> Suc k"
    by (simp add: d)
  also have "\<dots> \<longleftrightarrow> n < 10 \<or> n div 10 < 10 ^ Suc k"
    by (simp only: Suc.IH)
  also have "\<dots> \<longleftrightarrow> n < 10 ^ Suc (Suc k)"
  proof -
    have "n div 10 < 10 ^ Suc k \<longleftrightarrow> n < 10 ^ Suc (Suc k)"
      by (simp add: div_less_iff_less_mult mult.commute)
    moreover have "n < 10 ^ Suc (Suc k)" if "n < 10"
    proof -
      have "(10::nat) \<le> 10 ^ Suc (Suc k)"
        using power_increasing[of 1 "Suc (Suc k)" "10::nat"] by simp
      with that show ?thesis by (rule less_le_trans)
    qed
    ultimately show ?thesis by blast
  qed
  finally show ?case .
qed

text \<open>\<^verbatim>\<open>str\<close> converts the integers below \<open>10 ^ 4300\<close> in magnitude, and no other.\<close>

lemma printable_int: "printable (PNum (PInt n)) \<longleftrightarrow> \<bar>n\<bar> < 10 ^ int_max_str_digits"
proof -
  have "\<exists>k. int_max_str_digits = Suc k"
    by (rule exI[of _ 4299]) (simp add: int_max_str_digits_def)
  then obtain k where k: "int_max_str_digits = Suc k" by blast
  have "length (digits (nat \<bar>n\<bar>)) \<le> Suc k \<longleftrightarrow> nat \<bar>n\<bar> < 10 ^ Suc k"
    by (rule digits_length)
  also have "\<dots> \<longleftrightarrow> \<bar>n\<bar> < 10 ^ Suc k"
    by (simp add: nat_less_iff)
  finally show ?thesis by (simp only: printable.simps k)
qed

lemma py_str_printable:
  "py_str float_repr v = (if printable v then Inr (spec_cell float_repr US v) else Inl ValueError)"
  by (cases "(float_repr, US, v)" rule: spec_cell.cases) (auto simp: str_of_int_def)

lemma format_cell:
  "(if fmt = FR \<and> is_float v
    then (case py_str float_repr v of Inl e \<Rightarrow> Inl e | Inr s \<Rightarrow> Inr (replace ''.'' '','' s))
    else py_str float_repr v)
     = (if printable v then Inr (spec_cell float_repr fmt v) else Inl ValueError)"
  by (cases "(float_repr, fmt, v)" rule: spec_cell.cases)
     (auto simp: replace_decimal_point str_of_int_def)

lemma format_cells_printable:
  "format_cells float_repr fmt row
     = (if \<forall>v \<in> set row. printable v then Inr (map (spec_cell float_repr fmt) row)
        else Inl ValueError)"
proof (induction row)
  case Nil
  then show ?case by simp
next
  case (Cons v row)
  show ?case
    by (simp only: format_cells.simps format_cell Cons.IH) (auto split: sum.splits)
qed

lemma as_csv_row_cells:
  "as_csv_row float_repr d fmt
     = (if \<forall>key \<in> set schema_keys. printable (value_at d key)
        then Inr (writerow (delimiter fmt) (spec_cells float_repr d fmt))
        else Inl ValueError)"
proof -
  have "(if fmt = FR then CHR '';'' else CHR '','') = delimiter fmt"
    by (cases fmt) (simp_all add: delimiter_def)
  then show ?thesis
    by (simp add: as_csv_row_def get_all_schema format_csv_row_def format_cells_printable
        spec_cells_def comp_def)
qed

lemma writerow_plain:
  assumes "list_all (\<lambda>cell. \<not> needs_quotes d cell) cells" "cells \<noteq> [[]]"
  shows "writerow d cells = join d cells @ [CHR 0x0D, CHR 0x0A]"
proof -
  have "map (csv_field d) cells = cells"
    using assms(1) by (induction cells) (simp_all add: csv_field_def)
  then show ?thesis using assms(2) by (simp add: writerow_def)
qed

lemma spec_cells_not_single: "spec_cells float_repr d fmt \<noteq> [[]]"
proof -
  have "length (spec_cells float_repr d fmt) = 32"
    by (simp add: spec_cells_def schema_keys_def annotations_def)
  then show ?thesis by auto
qed

lemma example_cells:
  "spec_cells (\<lambda>x. ''1.5'') record_c FR =
     [[], ''X'', [], [], [], [], [], [], [], [], [], [], [], [], ''1,5'', [], [], [], [], [], [],
      ''12'', [], [], [], [], [], [], [], [], [], []]"
  by (simp add: spec_cells_def schema_keys_def annotations_def value_at_def record_c_def
      decimal_def digits.simps decimal_comma_def)

lemma example_cells_plain:
  "list_all (\<lambda>cell. \<not> needs_quotes (delimiter FR) cell) (spec_cells (\<lambda>x. ''1.5'') record_c FR)"
  by (simp add: example_cells needs_quotes_def delimiter_def)

lemma example_row:
  "join (delimiter FR) (spec_cells (\<lambda>x. ''1.5'') record_c FR)
     = '';X;;;;;;;;;;;;;1,5;;;;;;;12;;;;;;;;;;''"
  by (simp add: example_cells delimiter_def)

lemma example_printable: "\<forall>key \<in> set schema_keys. printable (value_at record_c key)"
  by (simp add: schema_keys_def annotations_def value_at_def record_c_def int_max_str_digits_def
      digits.simps)

lemma huge_height_not_printable:
  "''height'' \<in> set schema_keys \<and> \<not> printable (value_at huge_height ''height'')"
proof -
  have "value_at huge_height ''height'' = PNum (PInt (10 ^ int_max_str_digits))"
    by (simp add: value_at_def huge_height_def)
  then have "\<not> printable (value_at huge_height ''height'')"
    by (simp add: printable_int del: printable.simps)
  moreover have "''height'' \<in> set schema_keys"
    by (simp add: schema_keys_def annotations_def)
  ultimately show ?thesis by blast
qed

lemma example_dom: "dom (data record_a) \<subseteq> set schema_keys"
  by (simp add: record_a_def schema_keys_def annotations_def)

section \<open>Merging a record with itself\<close>

lemma round_half_even_nonneg: "0 \<le> x \<Longrightarrow> 0 \<le> round_half_even x"
proof -
  assume "0 \<le> x"
  then have "0 \<le> \<lfloor>x\<rfloor>" by simp
  then show ?thesis by (auto simp: round_half_even_def Let_def)
qed

lemma round_mag_nonneg: "0 \<le> q \<Longrightarrow> 0 \<le> round_mag q"
  by (simp add: round_mag_def Let_def round_half_even_nonneg)

lemma fle_zero_fl: "0 \<le> q \<Longrightarrow> fle (Fin 0) (fl q)"
  using round_mag_nonneg[of q] by (auto simp: fl_def Let_def)

lemma fl_nonneg_cases:
  assumes "0 \<le> q"
  shows "fl q = PInf \<or> (\<exists>r. 0 \<le> r \<and> fl q = Fin r)"
  using assms round_mag_nonneg[of q] by (auto simp: fl_def Let_def)

lemma fle_zero_fmul:
  assumes "0 \<le> c" "0 \<le> p"
  shows "fle (Fin 0) (fmul (Fin c) (Fin p))"
  using assms fle_zero_fl[of "c * p"] by simp

lemma abs_diff_le_self:
  assumes "not_negative (PNum a)" "is_empty (PNum a) = Inr False" "0 \<le> c"
  shows "abs_diff_le (Fin c) a a = Inr True"
proof (cases a)
  case (PInt n)
  then obtain x where x: "float_of_int n = Inr x" and n: "0 \<le> n" using assms(1) by auto
  have "x = fl (of_int n)" using x by (simp add: float_of_int_def split: pyfloat.splits)
  moreover have "x \<noteq> PInf" using x by (auto simp: float_of_int_def split: pyfloat.splits)
  ultimately obtain r where r: "0 \<le> r" "x = Fin r"
    using fl_nonneg_cases[of "of_int n"] n by auto
  show ?thesis
    using PInt x r fle_zero_fmul[OF assms(3) r(1)]
    by (simp add: abs_diff_le_def py_max_def num_gt_def fgt_irrefl float_times_def num_le_def)
next
  case (PFloat y)
  then obtain p where p: "y = Fin p" "0 \<le> p"
    using assms(1,2) by (cases y) auto
  show ?thesis
    using PFloat p fle_zero_fmul[OF assms(3) p(2)]
    by (simp add: abs_diff_le_def py_max_def num_gt_def fgt_irrefl float_times_def num_le_def
        fl_zero)
qed

lemma are_equal_self:
  assumes "not_negative v" "is_empty v = Inr False"
  shows "are_equal v v = Inr True"
proof (cases v)
  case (PStr s)
  then show ?thesis by simp
next
  case (PNum a)
  then show ?thesis using assms abs_diff_le_self[of a "1152921504606847 / 576460752303423488"]
    by (simp add: lit_2e_3)
qed

text \<open>
  Whatever the record, merging it with itself under the keep-second policy gives its own
  values back and attributes every field to the second set; the list of conflicts is empty
  when no number of the record is negative or infinite.
\<close>

lemma merge_self:
  assumes "merge lower r r Keep2nd verbose stdin = Inr (m, (r0, r1), cs)"
  shows "r0 = {}" and "r1 = set schema_keys"
    and "\<forall>key \<in> set schema_keys. get m key = get r key"
    and "cs = filter (is_conflict lower r r) schema_keys"
proof -
  note s = merge_schema[OF assms]
  have nf: "\<not> first_wins r r k" for k by (auto simp: first_wins_def)
  show "r0 = {}" using s(2) nf by simp
  show "r1 = set schema_keys" using s(3) nf by simp
  show "cs = filter (is_conflict lower r r) schema_keys" using s(1) .
  show "\<forall>key \<in> set schema_keys. get m key = get r key"
  proof
    fix key assume k: "key \<in> set schema_keys"
    then have "data m key = Some (value_at r key)" using s(4) by simp
    then show "get m key = get r key" using k by (simp add: get_stored get_schema)
  qed
qed

lemma merge_self_no_conflict:
  assumes "merge lower r r Keep2nd verbose stdin = Inr (m, (r0, r1), cs)"
    and "\<forall>key \<in> set schema_keys. not_negative (value_at r key)"
  shows "cs = []"
proof -
  have "\<not> is_conflict lower r r key" if "key \<in> set schema_keys" for key
    using are_equal_self[of "value_at r key"] assms(2) that by (auto simp: is_conflict_def)
  then show ?thesis using merge_self(4)[OF assms(1)] by (simp add: filter_empty_conv)
qed

section \<open>Rounding is monotone\<close>

lemma round_half_even_mono:
  assumes "x \<le> y"
  shows "round_half_even x \<le> round_half_even y"
proof (cases "\<lfloor>x\<rfloor> = \<lfloor>y\<rfloor>")
  case True
  then have "x - of_int \<lfloor>x\<rfloor> \<le> y - of_int \<lfloor>y\<rfloor>" using assms by simp
  then show ?thesis using True by (auto simp: round_half_even_def Let_def)
next
  case False
  then have "\<lfloor>x\<rfloor> + 1 \<le> \<lfloor>y\<rfloor>" using floor_mono[OF assms] by linarith
  moreover have "round_half_even x \<le> \<lfloor>x\<rfloor> + 1" by (auto simp: round_half_even_def Let_def)
  moreover have "\<lfloor>y\<rfloor> \<le> round_half_even y" by (auto simp: round_half_even_def Let_def)
  ultimately show ?thesis by linarith
qed

lemma round_half_even_of_int: "round_half_even (of_int n) = n"
  by (simp add: round_half_even_def)

lemma ilog2_mono:
  assumes "0 < p" "p \<le> q"
  shows "ilog2 p \<le> ilog2 q"
proof -
  have q: "0 < q" using assms by simp
  have "(2::rat) powi (ilog2 p) \<le> p" using ilog2_bounds[OF assms(1)] by simp
  also have "p \<le> q" by fact
  also have "q < 2 powi (ilog2 q + 1)" using ilog2_bounds[OF q] by simp
  finally have "(2::rat) powi (ilog2 p) < 2 powi (ilog2 q + 1)" .
  then have "ilog2 p < ilog2 q + 1"
    using power_int_increasing[of "ilog2 q + 1" "ilog2 p" "2::rat"]
    by (cases "ilog2 p < ilog2 q + 1") auto
  then show ?thesis by simp
qed

lemma powi_int: "0 \<le> k \<Longrightarrow> (2::rat) powi k = of_int (2 ^ nat k)"
  by (simp add: power_int_def)

lemma round_mag_mono:
  assumes "0 < p" "p \<le> q"
  shows "round_mag p \<le> round_mag q"
proof -
  define ep where "ep = max (ilog2 p - 52) (- 1074)"
  define eq where "eq = max (ilog2 q - 52) (- 1074)"
  have q: "0 < q" using assms by simp
  have rp: "round_mag p = of_int (round_half_even (p / 2 powi ep)) * 2 powi ep"
    by (simp add: round_mag_def ep_def Let_def)
  have rq: "round_mag q = of_int (round_half_even (q / 2 powi eq)) * 2 powi eq"
    by (simp add: round_mag_def eq_def Let_def)
  have le: "ep \<le> eq" using ilog2_mono[OF assms] by (simp add: ep_def eq_def)
  have pos: "(0::rat) < 2 powi k" for k by simp
  show ?thesis
  proof (cases "ep = eq")
    case True
    have "p / 2 powi eq \<le> q / 2 powi eq" using assms(2) pos[of eq] by (simp add: divide_right_mono)
    then have "round_half_even (p / 2 powi eq) \<le> round_half_even (q / 2 powi eq)"
      by (rule round_half_even_mono)
    then show ?thesis unfolding rp rq True using pos[of eq]
      by (simp add: mult_right_mono)
  next
    case False
    then have lt: "ep < eq" using le by simp
    then have eqk: "eq = ilog2 q - 52" by (auto simp: eq_def ep_def)
    have kk: "ilog2 p < ilog2 q" using lt by (auto simp: eq_def ep_def)
    define B where "B = (2::rat) powi (ilog2 q)"
    have pB: "p \<le> B"
    proof -
      have "p < 2 powi (ilog2 p + 1)" using ilog2_bounds[OF assms(1)] by simp
      also have "\<dots> \<le> 2 powi (ilog2 q)" using kk by (intro power_int_increasing) auto
      finally show ?thesis by (simp add: B_def)
    qed
    have Bq: "B \<le> q" using ilog2_bounds[OF q] by (simp add: B_def)
    have d1: "0 \<le> ilog2 q - ep" using lt eqk by simp
    have Bp: "B / 2 powi ep = of_int (2 ^ nat (ilog2 q - ep))"
    proof -
      have "B / 2 powi ep = 2 powi (ilog2 q - ep)" by (simp add: B_def power_int_diff)
      then show ?thesis using powi_int[OF d1] by simp
    qed
    have Bqe: "B / 2 powi eq = of_int (2 ^ 52)"
    proof -
      have "B / 2 powi eq = 2 powi (ilog2 q - eq)" by (simp add: B_def power_int_diff)
      also have "ilog2 q - eq = 52" using eqk by simp
      finally show ?thesis by simp
    qed
    have "round_half_even (p / 2 powi ep) \<le> round_half_even (B / 2 powi ep)"
      using pB pos[of ep] by (intro round_half_even_mono) (simp add: divide_right_mono)
    then have "of_int (round_half_even (p / 2 powi ep)) \<le> B / 2 powi ep"
      unfolding Bp round_half_even_of_int by (simp only: of_int_le_iff)
    then have 1: "round_mag p \<le> B" unfolding rp using pos[of ep]
      by (simp add: field_simps)
    have "round_half_even (B / 2 powi eq) \<le> round_half_even (q / 2 powi eq)"
      using Bq pos[of eq] by (intro round_half_even_mono) (simp add: divide_right_mono)
    then have "B / 2 powi eq \<le> of_int (round_half_even (q / 2 powi eq))"
      unfolding Bqe round_half_even_of_int by (simp only: of_int_le_iff)
    then have 2: "B \<le> round_mag q" unfolding rq using pos[of eq]
      by (simp add: field_simps)
    show ?thesis using 1 2 by simp
  qed
qed

lemma fl_mono:
  assumes "0 \<le> p" "p \<le> q"
  shows "fle (fl p) (fl q)"
proof (cases "p = 0")
  case True
  then show ?thesis using fle_zero_fl[of q] assms by (simp add: fl_zero)
next
  case False
  then have p: "0 < p" "0 < q" using assms by auto
  have "round_mag p \<le> round_mag q" using round_mag_mono[OF p(1) assms(2)] .
  moreover have "0 \<le> round_mag p" using round_mag_nonneg[of p] p by simp
  ultimately show ?thesis using p by (auto simp: fl_def Let_def)
qed

lemma fle_trans: "fle x y \<Longrightarrow> fle y z \<Longrightarrow> fle x z"
  by (cases x; cases y; cases z) simp_all

lemma fmul_mono:
  assumes "0 < c" "c \<le> c'" "fle (Fin 0) x"
  shows "fle (fmul (Fin c) x) (fmul (Fin c') x)"
proof (cases x)
  case (Fin p)
  then have p: "0 \<le> p" using assms(3) by simp
  show ?thesis
  proof (cases "p = 0")
    case True
    then show ?thesis using Fin assms by simp
  next
    case False
    then have "0 \<le> c * p" "c * p \<le> c' * p" using p assms by (simp_all add: mult_right_mono)
    then show ?thesis using Fin False assms fl_mono[of "c * p" "c' * p"] by simp
  qed
qed (use assms in auto)

text \<open>
  Where the larger of two numbers is not negative, strict equality gives tolerant
  equality: the bound of the tolerant test is not below the bound of the strict one.
\<close>

lemma strict_implies_tolerant:
  assumes "are_equal (PNum a) (PNum b) = Inr True" "fle (Fin 0) (exact (py_max a b))"
  shows "are_close_enough lower (PNum a) (PNum b) = Inr True"
proof -
  let ?c = "1152921504606847 / 576460752303423488 :: rat"
  let ?c' = "3602879701896397 / 72057594037927936 :: rat"
  from assms(1) obtain d x where d: "num_sub a b = Inr d"
    and x: "as_float (py_max a b) = Inr x"
    and le: "fle (exact (num_abs d)) (fmul (Fin ?c) x)"
    by (auto simp: abs_diff_le_def float_times_def num_le_def lit_2e_3 split: sum.splits)
  have "fle (Fin 0) x"
  proof (cases "py_max a b")
    case (PInt n)
    then have "0 \<le> n" "x = fl (of_int n)"
      using assms(2) x by (auto simp: float_of_int_def split: pyfloat.splits)
    then show ?thesis using fle_zero_fl[of "of_int n"] by simp
  next
    case (PFloat y)
    then show ?thesis using assms(2) x by simp
  qed
  then have "fle (fmul (Fin ?c) x) (fmul (Fin ?c') x)" by (intro fmul_mono) simp_all
  then have "fle (exact (num_abs d)) (fmul (Fin ?c') x)" using le fle_trans by blast
  then show ?thesis
    using d x by (simp add: abs_diff_le_def float_times_def num_le_def lit_0_05)
qed

section \<open>The claims about the value comparator\<close>

text \<open>
  Claim C2: for every pair of numbers \<open>a\<close> and \<open>b\<close>, \<open>are_equal(a, b)\<close> is true if and only
  if the absolute difference \<open>|a - b|\<close> is at most 0.2 percent of the larger magnitude
  \<open>max(|a|, |b|)\<close>.

  The code multiplies the tolerance by \<^verbatim>\<open>max(a,b)\<close>, the larger value and not the larger
  magnitude. For the integers \<open>-1\<close> and \<open>-1\<close> the bound is \<open>2e-3 * -1\<close>, a negative
  float, the difference \<open>0\<close> is not below it, and \<open>are_equal\<close> returns \<open>False\<close>, although
  the difference is within 0.2 percent of the larger magnitude.
\<close>

theorem are_equal_negative_pair:
  "are_equal (PNum (PInt (- 1))) (PNum (PInt (- 1))) = Inr False \<and> spec_are_equal (- 1) (- 1)"
  using are_equal_minus_one by (simp add: spec_are_equal_def)

text \<open>
  Claim C6: for every pair of numbers \<open>a\<close> and \<open>b\<close>, if \<open>are_equal(a, b)\<close> is true then
  \<open>are_close_enough(a, b)\<close> is true.

  With a negative \<^verbatim>\<open>max(a,b)\<close> both bounds are negative, and the claim is in danger where
  the strict bound underflows to \<open>-0.0\<close> and the tolerant one does not. For the float
  \<^verbatim>\<open>-1e-322\<close> compared with itself the difference is \<open>0.0\<close>, the strict bound
  \<^verbatim>\<open>2e-3 * -1e-322\<close> rounds to \<open>-0.0\<close> and \<open>0.0 <= -0.0\<close> holds, while the tolerant bound
  \<^verbatim>\<open>0.05 * -1e-322\<close> rounds to \<^verbatim>\<open>-5e-324\<close>: \<open>are_equal\<close> is true and
  \<open>are_close_enough\<close> is false.
\<close>

theorem are_equal_not_close_enough_tiny:
  "is_double tiny \<and>
   are_equal (PNum (PFloat tiny)) (PNum (PFloat tiny)) = Inr True \<and>
   are_close_enough lower (PNum (PFloat tiny)) (PNum (PFloat tiny)) = Inr False"
  using is_double_tiny are_equal_tiny are_close_enough_tiny by simp

text \<open>
  Claim C7: for every pair of values \<open>a\<close> and \<open>b\<close>, each a string, an integer or a float,
  \<open>are_equal(a, b)\<close> equals \<open>are_equal(b, a)\<close> and \<open>are_close_enough(a, b)\<close> equals
  \<open>are_close_enough(b, a)\<close>: the same truth value, or the same exception.
\<close>

theorem comparators_commute:
  assumes "py_value a" "py_value b"
  shows "are_equal a b = are_equal b a \<and>
         are_close_enough lower a b = are_close_enough lower b a"
  using assms by (simp add: are_equal_commute_aux are_close_enough_commute_aux)

theorem comparators_commute_witness:
  "py_value (PNum (PInt 1)) \<and> py_value (PNum (PFloat (Fin 1))) \<and>
   are_equal (PNum (PInt 1)) (PNum (PFloat (Fin 1)))
     = are_equal (PNum (PFloat (Fin 1))) (PNum (PInt 1)) \<and>
   are_close_enough (\<lambda>s. s) (PNum (PInt 1)) (PNum (PFloat (Fin 1)))
     = are_close_enough (\<lambda>s. s) (PNum (PFloat (Fin 1))) (PNum (PInt 1))"
proof -
  have a: "py_value (PNum (PInt 1))" by simp
  have b: "py_value (PNum (PFloat (Fin 1)))" by (simp add: fl_one)
  from comparators_commute[OF a b, of "\<lambda>s. s"] a b show ?thesis by blast
qed

section \<open>The claims about the merger\<close>

text \<open>
  Claim C1: for every pair of records with at least one field classified as a conflict,
  \<open>merge\<close> under the keep-second policy gives every conflicting field the value of the
  second record, adds the name of every conflicting field to the second set of the report,
  and still returns these names in the list of conflicts.

  The list returned is the list of the fields of the schema that are conflicts, in the
  order of the schema; the example has one, \<^verbatim>\<open>category\<close>.
\<close>

theorem merge_keep2nd_conflicts:
  assumes "merge lower d1 d2 Keep2nd verbose stdin = Inr (m, (r0, r1), cs)"
  shows "cs = filter (is_conflict lower d1 d2) schema_keys \<and>
         (\<forall>key \<in> set cs. get m key = get d2 key \<and> key \<in> r1 \<and> key \<notin> r0)"
proof -
  note s = merge_schema[OF assms]
  have "get m key = get d2 key \<and> key \<in> r1 \<and> key \<notin> r0" if "key \<in> set cs" for key
  proof -
    from that have k: "key \<in> set schema_keys" "is_conflict lower d1 d2 key"
      using s(1) by auto
    then have nf: "\<not> first_wins d1 d2 key" by (auto simp: first_wins_def is_conflict_def)
    then have "data m key = Some (value_at d2 key)" using k s(4) by simp
    then have "get m key = get d2 key" using k(1) by (simp add: get_stored get_schema)
    then show ?thesis using k nf s(2,3) by simp
  qed
  then show ?thesis using s(1) by blast
qed

theorem merge_keep2nd_conflicts_witness:
  "\<exists>m r0 r1. merge (\<lambda>s. s) record_a record_b Keep2nd 0 None = Inr (m, (r0, r1), [''category''])
     \<and> get m ''category'' = Inr (PStr ''Desktop'') \<and> ''category'' \<in> r1 \<and> ''category'' \<notin> r0"
proof -
  obtain m r0 r1 cs
    where e: "merge (\<lambda>s. s) record_a record_b Keep2nd 0 None = Inr (m, (r0, r1), cs)"
    using example_returns[where conflict = Keep2nd and stdin = None and verbose = 0] by auto
  from merge_keep2nd_conflicts[OF e] show ?thesis
    using e example_conflicts example_values by auto
qed

text \<open>
  Claim C3: for every record \<open>r\<close>, merging \<open>r\<close> with itself under the keep-second policy
  gives a record identical to \<open>r\<close>, a report whose first set is empty and whose second set
  holds every field of the schema, and an empty list of conflicts.

  A record with a negative number is a conflict with itself: \<open>are_equal\<close> and
  \<open>are_close_enough\<close> bound the difference by a multiple of \<^verbatim>\<open>max(a,b)\<close>, which is negative,
  so both reject the pair \<open>(-1, -1)\<close>, and the field \<^verbatim>\<open>height\<close> is returned as a conflict.
\<close>

theorem merge_self_negative_height:
  "\<exists>m r0 r1. merge lower negative_height negative_height Keep2nd verbose stdin
     = Inr (m, (r0, r1), [''height''])"
proof -
  obtain m r0 r1 cs
    where e: "merge lower negative_height negative_height Keep2nd verbose stdin
                = Inr (m, (r0, r1), cs)"
    using negative_height_returns by blast
  from merge_schema(1)[OF e] show ?thesis using e negative_height_conflicts by auto
qed

text \<open>
  Claim C4: for every pair of records, after \<open>merge\<close> returns, the two sets of the report
  are disjoint, their union is exactly the set of the field names of the schema, and the
  merged record has a value for every field of the schema: each field name is in exactly
  one of the two sets.
\<close>

theorem merge_schema_complete:
  assumes "merge lower d1 d2 conflict verbose stdin = Inr (m, (r0, r1), cs)"
  shows "r0 \<inter> r1 = {} \<and> r0 \<union> r1 = set schema_keys \<and> dom (data m) = set schema_keys"
proof -
  note s = merge_schema[OF assms]
  have "r0 \<inter> r1 = {}" using s(2,3) by auto
  moreover have "r0 \<union> r1 = set schema_keys" using s(2,3) by auto
  moreover have "dom (data m) = set schema_keys" using s(4) by (auto simp: dom_def)
  ultimately show ?thesis by simp
qed

theorem merge_schema_complete_witness:
  "\<exists>m r0 r1 cs. merge (\<lambda>s. s) record_a record_b Interactive 0 (Some ''o'') = Inr (m, (r0, r1), cs)
     \<and> r0 \<inter> r1 = {} \<and> r0 \<union> r1 = set schema_keys \<and> dom (data m) = set schema_keys"
proof -
  obtain m r0 r1 cs
    where e: "merge (\<lambda>s. s) record_a record_b Interactive 0 (Some ''o'') = Inr (m, (r0, r1), cs)"
    using example_returns[where conflict = Interactive and stdin = "Some ''o''" and verbose = 0] by auto
  from merge_schema_complete[OF e] e show ?thesis by blast
qed

text \<open>
  Claim C5: for every field where one side is empty and the other is not, \<open>merge\<close> keeps
  the value that is not empty and attributes the field to the record that gave it (an
  empty first value with a second value goes to the second set, a first value with an
  empty second value goes to the first set); when both sides are empty, \<open>merge\<close> keeps the
  (empty) value of the second record and attributes the field to the second set.
\<close>

theorem merge_emptiness_precedence:
  assumes "merge lower d1 d2 conflict verbose stdin = Inr (m, (r0, r1), cs)"
    and "key \<in> set schema_keys" and "get d1 key = Inr v1" and "get d2 key = Inr v2"
  shows "(is_empty v1 = Inr False \<and> is_empty v2 = Inr True
            \<longrightarrow> get m key = Inr v1 \<and> key \<in> r0 \<and> key \<notin> r1) \<and>
         (is_empty v1 = Inr True \<and> is_empty v2 = Inr False
            \<longrightarrow> get m key = Inr v2 \<and> key \<in> r1 \<and> key \<notin> r0) \<and>
         (is_empty v1 = Inr True \<and> is_empty v2 = Inr True
            \<longrightarrow> get m key = Inr v2 \<and> key \<in> r1 \<and> key \<notin> r0)"
proof -
  note s = merge_schema[OF assms(1)]
  have v: "value_at d1 key = v1" "value_at d2 key = v2"
    using assms(2,3,4) by (simp_all add: get_schema)
  have "data m key = Some (if key \<in> r0 then v1 else v2)"
    using s(2,4) assms(2) v by simp
  then have g: "get m key = Inr (if key \<in> r0 then v1 else v2)"
    by (rule get_stored)
  have 1: "key \<in> r0 \<and> key \<notin> r1" if "is_empty v1 = Inr False" "is_empty v2 = Inr True"
    using that s(2,3) assms(2) v by (simp add: first_wins_def)
  have 2: "key \<in> r1 \<and> key \<notin> r0" if "is_empty v1 = Inr True"
    using that s(2,3) assms(2) v by (simp add: first_wins_def is_conflict_def)
  show ?thesis using g 1 2 by auto
qed

theorem merge_emptiness_precedence_witness:
  "\<exists>m r0 r1 cs. merge (\<lambda>s. s) record_a record_b Keep2nd 0 None = Inr (m, (r0, r1), cs)
     \<and> get m ''name'' = Inr (PStr ''X'') \<and> ''name'' \<in> r0 \<and> ''name'' \<notin> r1
     \<and> get m ''manufacturer'' = Inr (PStr ''Y'') \<and> ''manufacturer'' \<in> r1 \<and> ''manufacturer'' \<notin> r0
     \<and> get m ''subcategory'' = Inr (PStr '''') \<and> ''subcategory'' \<in> r1 \<and> ''subcategory'' \<notin> r0"
proof -
  obtain m r0 r1 cs
    where e: "merge (\<lambda>s. s) record_a record_b Keep2nd 0 None = Inr (m, (r0, r1), cs)"
    using example_returns[where conflict = Keep2nd and stdin = None and verbose = 0] by auto
  have "get m ''name'' = Inr (PStr ''X'') \<and> ''name'' \<in> r0 \<and> ''name'' \<notin> r1"
    using merge_emptiness_precedence[OF e example_keys(1) example_values(1,2)] by simp
  moreover have "get m ''manufacturer'' = Inr (PStr ''Y'') \<and> ''manufacturer'' \<in> r1
      \<and> ''manufacturer'' \<notin> r0"
    using merge_emptiness_precedence[OF e example_keys(2) example_values(3,4)] by simp
  moreover have "get m ''subcategory'' = Inr (PStr '''') \<and> ''subcategory'' \<in> r1
      \<and> ''subcategory'' \<notin> r0"
    using merge_emptiness_precedence[OF e example_keys(4) example_values(5,6)] by simp
  ultimately show ?thesis using e by blast
qed

text \<open>
  Claim C10: for every pair of records and every field of the schema, the value of the
  field in the merged record, read through the accessor, is the value the accessor gives
  for the first record or the value it gives for the second: \<open>merge\<close> makes up no value.
\<close>

theorem merge_value_from_input:
  assumes "merge lower d1 d2 conflict verbose stdin = Inr (m, (r0, r1), cs)"
    and "key \<in> set schema_keys"
  shows "get m key = get d1 key \<or> get m key = get d2 key"
proof -
  have "data m key = Some (value_at d1 key) \<or> data m key = Some (value_at d2 key)"
    using merge_schema(4)[OF assms(1)] assms(2) by simp
  then have "get m key = Inr (value_at d1 key) \<or> get m key = Inr (value_at d2 key)"
    using get_stored by blast
  then show ?thesis using assms(2) get_schema[of key d1] get_schema[of key d2] by simp
qed

theorem merge_value_from_input_witness:
  "\<exists>m r0 r1 cs. merge (\<lambda>s. s) record_a record_b Interactive 0 (Some ''o'') = Inr (m, (r0, r1), cs)
     \<and> (get m ''category'' = get record_a ''category''
          \<or> get m ''category'' = get record_b ''category'')"
proof -
  obtain m r0 r1 cs
    where e: "merge (\<lambda>s. s) record_a record_b Interactive 0 (Some ''o'') = Inr (m, (r0, r1), cs)"
    using example_returns[where conflict = Interactive and stdin = "Some ''o''" and verbose = 0] by auto
  from merge_value_from_input[OF e example_keys(3)] e show ?thesis by blast
qed

section \<open>The claims about the accessor and the row formatter\<close>

lemma get_raises_iff_absent:
  "(\<exists>e. get d key = Inl e) \<longleftrightarrow> data d key = None \<and> key \<notin> set schema_keys"
  by (auto simp: get_def split: option.splits)

text \<open>
  Claim C8: for every field name, the accessor \<open>get\<close> raises an error if and only if the
  name is not in the schema; for every name that is in the schema and has no stored
  value, \<open>get\<close> returns the empty string and does not raise.

  A record stores values under fields of the schema only, as \<^verbatim>\<open>DeviceCarbonFootprintData\<close>
  declares. The error is \<^verbatim>\<open>ValueError\<close>.
\<close>

theorem get_raises_iff_unknown:
  assumes "dom (data d) \<subseteq> set schema_keys"
  shows "((\<exists>e. get d key = Inl e) \<longleftrightarrow> key \<notin> set schema_keys) \<and>
         (key \<notin> set schema_keys \<longrightarrow> get d key = Inl ValueError) \<and>
         (key \<in> set schema_keys \<and> data d key = None \<longrightarrow> get d key = Inr (PStr []))"
proof -
  have "data d key = None" if "key \<notin> set schema_keys"
    using that assms by (auto simp: dom_def)
  then show ?thesis
    using get_raises_iff_absent[of d key] by (auto simp: get_def split: option.splits)
qed

theorem get_raises_iff_unknown_witness:
  "dom (data record_a) \<subseteq> set schema_keys \<and>
   ''foo'' \<notin> set schema_keys \<and> get record_a ''foo'' = Inl ValueError \<and>
   ''weight'' \<in> set schema_keys \<and> data record_a ''weight'' = None \<and>
   get record_a ''weight'' = Inr (PStr []) \<and>
   ''name'' \<in> set schema_keys \<and> get record_a ''name'' = Inr (PStr ''X'')"
proof -
  have w: "data record_a ''weight'' = None"
    by (simp add: record_a_def)
  have 1: "get record_a ''foo'' = Inl ValueError"
    using get_raises_iff_unknown[OF example_dom, of "''foo''"] example_keys(6) by blast
  have 2: "get record_a ''weight'' = Inr (PStr [])"
    using get_raises_iff_unknown[OF example_dom, of "''weight''"] example_keys(5) w by blast
  show ?thesis using 1 2 w example_dom example_keys example_values(1) by blast
qed

text \<open>
  Claim C9: for every record, \<open>as_csv_row\<close> in the semicolon mode renders the fields in the
  order of the schema, separated by semicolons, with every decimal point of a float
  replaced by a comma; in the comma mode the fields are separated by commas and a float
  keeps its decimal point; a value that is not a float is rendered by \<^verbatim>\<open>str\<close> unchanged in
  both modes.

  \<open>as_csv_row\<close> returns a line unless the record holds an integer of more than 4300 digits,
  which \<^verbatim>\<open>str\<close> refuses with a \<^verbatim>\<open>ValueError\<close>. The line is the row of \<open>spec_cells\<close> written by
  \<^verbatim>\<open>csv.writer\<close> with the delimiter of the mode; where no cell holds the delimiter, a
  double quote or a line break, the line is the cells joined by the delimiter, then
  carriage return and line feed.
\<close>

theorem as_csv_row_renders:
  "(if \<forall>key \<in> set schema_keys. printable (value_at d key)
    then as_csv_row float_repr d fmt
           = Inr (writerow (delimiter fmt) (spec_cells float_repr d fmt))
    else as_csv_row float_repr d fmt = Inl ValueError) \<and>
   ((\<forall>key \<in> set schema_keys. printable (value_at d key)) \<and>
    list_all (\<lambda>cell. \<not> needs_quotes (delimiter fmt) cell) (spec_cells float_repr d fmt)
      \<longrightarrow> as_csv_row float_repr d fmt
            = Inr (join (delimiter fmt) (spec_cells float_repr d fmt) @ [CHR 0x0D, CHR 0x0A]))"
  using writerow_plain[OF _ spec_cells_not_single, of "delimiter fmt" float_repr d fmt]
  by (simp add: as_csv_row_cells)

theorem as_csv_row_renders_witness:
  "list_all (\<lambda>key. printable (value_at record_c key)) schema_keys \<and>
   list_all (\<lambda>cell. \<not> needs_quotes (delimiter FR) cell) (spec_cells (\<lambda>x. ''1.5'') record_c FR) \<and>
   as_csv_row (\<lambda>x. ''1.5'') record_c FR
     = Inr ('';X;;;;;;;;;;;;;1,5;;;;;;;12;;;;;;;;;;'' @ [CHR 0x0D, CHR 0x0A]) \<and>
   ''height'' \<in> set schema_keys \<and> \<not> printable (value_at huge_height ''height'') \<and>
   as_csv_row (\<lambda>x. ''1.5'') huge_height FR = Inl ValueError"
proof -
  have "as_csv_row (\<lambda>x. ''1.5'') record_c FR
      = Inr (join (delimiter FR) (spec_cells (\<lambda>x. ''1.5'') record_c FR) @ [CHR 0x0D, CHR 0x0A])"
    using as_csv_row_renders[of record_c "\<lambda>x. ''1.5''" FR] example_cells_plain example_printable
    by blast
  then have 1: "as_csv_row (\<lambda>x. ''1.5'') record_c FR
      = Inr ('';X;;;;;;;;;;;;;1,5;;;;;;;12;;;;;;;;;;'' @ [CHR 0x0D, CHR 0x0A])"
    by (simp only: example_row)
  have 2: "as_csv_row (\<lambda>x. ''1.5'') huge_height FR = Inl ValueError"
  proof -
    have "\<not> (\<forall>key \<in> set schema_keys. printable (value_at huge_height key))"
      using huge_height_not_printable by blast
    then show ?thesis
      using as_csv_row_renders[of huge_height "\<lambda>x. ''1.5''" FR] by (simp only: if_False simp_thms)
  qed
  have 3: "list_all (\<lambda>key. printable (value_at record_c key)) schema_keys"
    using example_printable by (simp only: list_all_iff)
  show ?thesis
    using 1 2 3 example_cells_plain huge_height_not_printable by blast
qed
end
